theory Spec2Isabelle
  imports Complex_Main "HOL-Library.Multiset"
begin

section \<open>Cubic spline interpolation (Algorithms/polynomial/cubic\_spline.py)\<close>

text \<open>
  The module builds a natural cubic spline through a list of points in two ways
  (\<open>cubic_spline4_matrix\<close>: one dense linear system; \<open>cubic_spline4\<close>: the
  tridiagonal system for the second derivatives) and wraps the segment
  expressions into one callable (\<open>map_S\<close>).

  Numbers: the source computes in IEEE double precision. The embedding computes
  in exact real arithmetic, so "equal within tolerance" is read as equality of
  the exact values; rounding is not part of the model. A NumPy division by zero
  raises nothing (it yields \<open>inf\<close> or \<open>nan\<close> and a warning); HOL's \<open>x / 0 = 0\<close>
  stands for that non-finite value, and no theorem below about a value divides
  by zero.

  Arrays are lists, the \<open>(n+1) \<times> 2\<close> array \<open>points\<close> is a list of pairs, a SymPy
  expression in the symbol \<open>x_\<close> is the function of \<open>x_\<close> it denotes, and
  \<open>lambdify\<close> of it is that function. Exceptions are values of type \<open>error\<close>.
\<close>

datatype error =
    IndexError          \<comment> \<open>indexing outside an array or a list\<close>
  | LinAlgError         \<comment> \<open>\<open>numpy.linalg.solve\<close>: singular matrix\<close>
  | NonFiniteIndex      \<comment> \<open>\<open>int(...)\<close> of \<open>nan\<close> (ValueError) or \<open>inf\<close> (OverflowError)\<close>

type_synonym points = "(real \<times> real) list"

subsection \<open>The evaluator \<open>map_S\<close>\<close>

text \<open>
  \<^verbatim>\<open>
  def map_S(S, x, points):
      n = points.shape[0] - 1
      func = [sp.lambdify(x, S[i], 'numpy') for i in range(len(S))]
      start, end = np.min(points[:, 0]), np.max(points[:, 0])
      rang = end - start
      map_points = lambda p: int((p - start) // (rang / n)) if p != end else n - 1
      splines = np.vectorize(lambda p: func[map_points(p)](p))
      return splines
  \<close>
  The returned closure is the record of what it captures.
\<close>

record spline =
  func :: "(real \<Rightarrow> real) list"
  start :: real
  stop :: real          \<comment> \<open>the source's \<open>end\<close>\<close>
  nseg :: int           \<comment> \<open>the source's \<open>n\<close>\<close>

definition rang :: "spline \<Rightarrow> real" where
  "rang sp = stop sp - start sp"

definition map_S :: "(real \<Rightarrow> real) list \<Rightarrow> points \<Rightarrow> spline" where
  "map_S S pts =
     \<lparr> func = S,
       start = Min (set (map fst pts)),
       stop = Max (set (map fst pts)),
       nseg = int (length pts) - 1 \<rparr>"

text \<open>
  \<open>map_points\<close>: float floor division, then \<open>int\<close>. When the width \<open>rang / n\<close> is
  zero or undefined (\<open>n = 0\<close>, or all x equal) the quotient is \<open>inf\<close> or \<open>nan\<close> and
  \<open>int\<close> raises.
\<close>

definition map_points :: "spline \<Rightarrow> real \<Rightarrow> error + int" where
  "map_points sp p =
     (if p \<noteq> stop sp then
        (if nseg sp = 0 \<or> rang sp / real_of_int (nseg sp) = 0 then Inl NonFiniteIndex
         else Inr \<lfloor>(p - start sp) / (rang sp / real_of_int (nseg sp))\<rfloor>)
      else Inr (nseg sp - 1))"

text \<open>Python list indexing: a negative index counts from the end.\<close>

definition py_index :: "'a list \<Rightarrow> int \<Rightarrow> error + 'a" where
  "py_index xs i =
     (let len = int (length xs); j = (if i < 0 then len + i else i)
      in if 0 \<le> j \<and> j < len then Inr (xs ! nat j) else Inl IndexError)"

definition splines :: "spline \<Rightarrow> real \<Rightarrow> error + real" where
  "splines sp p =
     (case map_points sp p of
        Inl e \<Rightarrow> Inl e
      | Inr k \<Rightarrow> (case py_index (func sp) k of
                    Inl e \<Rightarrow> Inl e
                  | Inr f \<Rightarrow> Inr (f p)))"

subsection \<open>\<open>numpy.linalg.solve\<close>\<close>

text \<open>
  \<open>numpy.linalg.solve(M, A)\<close> is library code (LAPACK \<open>gesv\<close>): it returns the
  solution of the square system \<open>M c = A\<close> and raises \<open>LinAlgError\<close> when \<open>M\<close> is
  singular. In exact arithmetic the result does not depend on the pivoting, so it
  is modelled by Gaussian elimination on the equations \<open>(row of M, entry of A)\<close>:
  take an equation whose leading coefficient is not zero, eliminate the first
  unknown from the others, solve the rest, substitute back.
\<close>

type_synonym equation = "real list \<times> real"

definition dot :: "real list \<Rightarrow> real list \<Rightarrow> real" where
  "dot xs ys = sum_list (map2 (\<lambda>a b. a * b) xs ys)"

fun find_pivot :: "equation list \<Rightarrow> (equation \<times> equation list) option" where
  "find_pivot [] = None"
| "find_pivot (r # rs) =
     (if hd (fst r) \<noteq> 0 then Some (r, rs)
      else (case find_pivot rs of
              None \<Rightarrow> None
            | Some (p, rest) \<Rightarrow> Some (p, r # rest)))"

definition eliminate :: "equation \<Rightarrow> equation \<Rightarrow> equation" where
  "eliminate p r =
     (let m = hd (fst r) / hd (fst p)
      in (map2 (\<lambda>a b. a - m * b) (tl (fst r)) (tl (fst p)), snd r - m * snd p))"

fun solve_rows :: "nat \<Rightarrow> equation list \<Rightarrow> real list option" where
  "solve_rows 0 rows = Some []"
| "solve_rows (Suc k) rows =
     (case find_pivot rows of
        None \<Rightarrow> None
      | Some (p, rest) \<Rightarrow>
          (case solve_rows k (map (eliminate p) rest) of
             None \<Rightarrow> None
           | Some xs \<Rightarrow> Some ((snd p - dot (tl (fst p)) xs) / hd (fst p) # xs)))"

definition solve :: "real list list \<Rightarrow> real list \<Rightarrow> error + real list" where
  "solve M A =
     (case solve_rows (length M) (zip M A) of
        None \<Rightarrow> Inl LinAlgError
      | Some c \<Rightarrow> Inr c)"

subsection \<open>The dense builder \<open>cubic_spline4_matrix\<close>\<close>

text \<open>
  \<open>points[points[:, 0].argsort()]\<close> is \<open>sort_key fst\<close>; with pairwise distinct
  x-values the sorted array does not depend on the sorting algorithm.
  \<open>x[1:]\<close> is \<open>tl x\<close>, \<open>x[:-1]\<close> is \<open>butlast x\<close>.
\<close>

definition vander :: "real list \<Rightarrow> real list list" where
  \<comment> \<open>\<open>np.vander(x, N=4, increasing=False)\<close>\<close>
  "vander x = map (\<lambda>t. [t ^ 3, t ^ 2, t, 1]) x"

definition place :: "nat \<Rightarrow> nat \<Rightarrow> real list \<Rightarrow> real list" where
  \<comment> \<open>a row of \<open>np.zeros\<close> of width \<open>w\<close> with \<open>vals\<close> written from column \<open>off\<close>\<close>
  "place w off vals = replicate off 0 @ vals @ replicate (w - off - length vals) 0"

text \<open>
  The matrix \<open>M\<close>, row block by row block (\<open>idx[i, k] = 4 i + k\<close>, \<open>idx // 4 = i\<close>):
  \<^item> rows \<open>i\<close>: \<open>M[i, 4i..4i+3] = X[i]\<close> (segment \<open>i\<close> at its left end);
  \<^item> rows \<open>n + i\<close>: \<open>M[n + i, 4i..4i+3] = X[i + 1]\<close> (segment \<open>i\<close> at its right end);
  \<^item> rows \<open>2n + i\<close>, \<open>i < n - 1\<close>: \<open>X[i+1, 1:] * [3, 2, 1]\<close> in columns \<open>4i..4i+2\<close>
    and its negation in columns \<open>4i+4..4i+6\<close>;
  \<^item> rows \<open>3n - 1 + i\<close>, \<open>i < n - 1\<close>: \<open>X[i+1, 2:] * [6, 2]\<close> in columns \<open>4i, 4i+1\<close>
    and its negation in columns \<open>4i+4, 4i+5\<close>;
  \<^item> row \<open>-2\<close>: \<open>X[0, 2:] * [6, 2]\<close> in columns \<open>0, 1\<close>; row \<open>-1\<close>:
    \<open>X[-1, 2:] * [6, 2]\<close> in columns \<open>-4, -3\<close>.
\<close>

definition build_M :: "real list \<Rightarrow> real list list" where
  "build_M x =
     (let n = length x - 1; w = 4 * n; X = vander x
      in map (\<lambda>i. place w (4 * i) (X ! i)) [0..<n]
       @ map (\<lambda>i. place w (4 * i) (X ! (i + 1))) [0..<n]
       @ map (\<lambda>i. let r = map2 (\<lambda>a b. a * b) (tl (X ! (i + 1))) [3, 2, 1]
                   in place w (4 * i) (r @ [0] @ map uminus r)) [0..<n - 1]
       @ map (\<lambda>i. let r = map2 (\<lambda>a b. a * b) (tl (tl (X ! (i + 1)))) [6, 2]
                   in place w (4 * i) (r @ [0, 0] @ map uminus r)) [0..<n - 1]
       @ [place w 0 (map2 (\<lambda>a b. a * b) (tl (tl (X ! 0))) [6, 2]),
          place w (w - 4) (map2 (\<lambda>a b. a * b) (tl (tl (last X))) [6, 2])])"

definition build_A :: "real list \<Rightarrow> real list" where
  "build_A y = (let n = length y - 1 in butlast y @ tl y @ replicate (2 * n) 0)"

fun reshape4 :: "real list \<Rightarrow> real list list" where
  \<comment> \<open>\<open>.reshape((-1, 4))\<close> of an array whose length is a multiple of 4\<close>
  "reshape4 (a # b # c # d # rest) = [a, b, c, d] # reshape4 rest"
| "reshape4 _ = []"

definition cubic :: "real list \<Rightarrow> real \<Rightarrow> real" where
  \<comment> \<open>\<open>coeff[i, 0] * x_ ** 3 + coeff[i, 1] * x_ ** 2 + coeff[i, 2] * x_ + coeff[i, 3]\<close>\<close>
  "cubic co t = co ! 0 * t ^ 3 + co ! 1 * t ^ 2 + co ! 2 * t + co ! 3"

definition dense_coeff :: "points \<Rightarrow> error + real list list" where
  "dense_coeff pts =
     (if length pts < 2 then Inl IndexError
      else let points = sort_key fst pts; x = map fst points; y = map snd points
           in (case solve (build_M x) (build_A y) of
                 Inl e \<Rightarrow> Inl e
               | Inr c \<Rightarrow> Inr (reshape4 c)))"

definition cubic_spline4_matrix :: "points \<Rightarrow> error + spline" where
  "cubic_spline4_matrix pts =
     (case dense_coeff pts of
        Inl e \<Rightarrow> Inl e
      | Inr coeff \<Rightarrow> Inr (map_S (map cubic coeff) (sort_key fst pts)))"

subsection \<open>The moments builder \<open>cubic_spline4\<close>\<close>

definition widths :: "real list \<Rightarrow> real list" where
  \<comment> \<open>\<open>h = x[1:] - x[:-1]\<close>\<close>
  "widths x = map2 (-) (tl x) (butlast x)"

definition slopes :: "real list \<Rightarrow> real list \<Rightarrow> real list" where
  \<comment> \<open>\<open>b = (y[1:] - y[:-1]) * (6 / h)\<close>\<close>
  "slopes y h = map2 (\<lambda>dy hi. dy * (6 / hi)) (map2 (-) (tl y) (butlast y)) h"

definition diag_u :: "real list \<Rightarrow> real list" where
  \<comment> \<open>\<open>u = 2 * (h[1:] + h[:-1])\<close>\<close>
  "diag_u h = map2 (\<lambda>a b. 2 * (a + b)) (tl h) (butlast h)"

definition rhs_v :: "real list \<Rightarrow> real list" where
  \<comment> \<open>\<open>v = b[1:] - b[:-1]\<close>\<close>
  "rhs_v b = map2 (-) (tl b) (butlast b)"

text \<open>
  The elimination ("rank") is two whole-array statements. NumPy evaluates the
  right-hand side of \<open>u[1:] -= h[1:-1] ** 2 / u[:-1]\<close> into a new array before it
  subtracts, so every \<open>u[i]\<close> is updated from the \<^emph>\<open>old\<close> \<open>u[i-1]\<close>; the second
  statement then reads the new \<open>u\<close> and the old \<open>v\<close>.
\<close>

definition rank_u :: "real list \<Rightarrow> real list \<Rightarrow> real list" where
  \<comment> \<open>\<open>u[1:] -= h[1:-1] ** 2 / u[:-1]\<close>\<close>
  "rank_u h u =
     (case u of
        [] \<Rightarrow> []
      | u0 # us \<Rightarrow> u0 # map2 (-) us (map2 (\<lambda>hi ui. hi ^ 2 / ui) (butlast (tl h)) (butlast u)))"

definition rank_v :: "real list \<Rightarrow> real list \<Rightarrow> real list \<Rightarrow> real list" where
  \<comment> \<open>\<open>v[1:] -= v[:-1] * (h[1:-1] / u[:-1])\<close>, with \<open>u\<close> already updated\<close>
  "rank_v h u v =
     (case v of
        [] \<Rightarrow> []
      | v0 # vs \<Rightarrow> v0 # map2 (-) vs
          (map2 (\<lambda>a b. a * b) (butlast v) (map2 (/) (butlast (tl h)) (butlast u))))"

text \<open>
  \<open>for i in range(n - 1, 0, -1): z[i] = (v[i - 1] - h[i] * z[i + 1]) / u[i - 1]\<close>:
  the loop counter is \<open>i = Suc k\<close>. \<open>z\<close> starts as \<open>np.empty\<close> with \<open>z[0] = z[-1] = 0\<close>;
  every other entry is written before it is read, so the start is taken as zeros.
\<close>

fun back_subst :: "real list \<Rightarrow> real list \<Rightarrow> real list \<Rightarrow> nat \<Rightarrow> real list \<Rightarrow> real list" where
  "back_subst h u v 0 z = z"
| "back_subst h u v (Suc k) z =
     back_subst h u v k (z[Suc k := (v ! k - h ! Suc k * z ! Suc (Suc k)) / u ! k])"

definition moments :: "real list \<Rightarrow> real list \<Rightarrow> real list" where
  "moments x y =
     (let n = length x - 1; h = widths x; b = slopes y h;
          u = rank_u h (diag_u h); v = rank_v h u (rhs_v b)
      in back_subst h u v (n - 1) (replicate (n + 1) 0))"

definition segment :: "real list \<Rightarrow> real list \<Rightarrow> real list \<Rightarrow> nat \<Rightarrow> real \<Rightarrow> real" where
  \<comment> \<open>entry \<open>i\<close> of \<open>S\<close>, with \<open>c = y[1:] / h - (z[1:] * h) / 6\<close> and
      \<open>d = y[:-1] / h - (z[:-1] * h) / 6\<close>\<close>
  "segment x y z i t =
     (let h = widths x;
          c = map2 (-) (map2 (/) (tl y) h) (map (\<lambda>a. a / 6) (map2 (\<lambda>a b. a * b) (tl z) h));
          d = map2 (-) (map2 (/) (butlast y) h) (map (\<lambda>a. a / 6) (map2 (\<lambda>a b. a * b) (butlast z) h))
      in butlast z ! i / (6 * h ! i) * (tl x ! i - t) ^ 3
       + tl z ! i / (6 * h ! i) * (t - butlast x ! i) ^ 3
       + (c ! i * (t - butlast x ! i) + d ! i * (tl x ! i - t)))"

definition cubic_spline4 :: "points \<Rightarrow> error + spline" where
  "cubic_spline4 pts =
     (if pts = [] then Inl IndexError
      else let points = sort_key fst pts; x = map fst points; y = map snd points;
               n = length points - 1; z = moments x y
           in Inr (map_S (map (segment x y z) [0..<n]) points))"

subsection \<open>Notions used to state the properties\<close>

text \<open>
  A valid point set has at least two points and pairwise distinct x-values.
  \<open>sorted_x\<close> and \<open>sorted_y\<close> are the columns \<open>x\<close> and \<open>y\<close> of the sorted array.
\<close>

definition valid_points :: "points \<Rightarrow> bool" where
  "valid_points pts \<longleftrightarrow> 2 \<le> length pts \<and> distinct (map fst pts)"

definition sorted_x :: "points \<Rightarrow> real list" where
  "sorted_x pts = map fst (sort_key fst pts)"

definition sorted_y :: "points \<Rightarrow> real list" where
  "sorted_y pts = map snd (sort_key fst pts)"

text \<open>
  The segment index as the specification words it: \<open>floor((p - start) / width)\<close>
  with \<open>width = (end - start) / n\<close>, and \<open>n - 1\<close> when \<open>p\<close> is the domain end.
\<close>

definition segment_index :: "spline \<Rightarrow> real \<Rightarrow> int" where
  "segment_index sp p =
     (if p = stop sp then nseg sp - 1
      else \<lfloor>(p - start sp) / ((stop sp - start sp) / real_of_int (nseg sp))\<rfloor>)"

text \<open>First and second derivative of the cubic with coefficients \<open>co\<close>.\<close>

definition d1cubic :: "real list \<Rightarrow> real \<Rightarrow> real" where
  "d1cubic co t = 3 * co ! 0 * t ^ 2 + 2 * co ! 1 * t + co ! 2"

definition d2cubic :: "real list \<Rightarrow> real \<Rightarrow> real" where
  "d2cubic co t = 6 * co ! 0 * t + 2 * co ! 1"

text \<open>Systems of equations: all rows have \<open>k\<close> coefficients; \<open>ys\<close> solves every equation.\<close>

definition wf_rows :: "nat \<Rightarrow> equation list \<Rightarrow> bool" where
  "wf_rows k rows \<longleftrightarrow> (\<forall>r\<in>set rows. length (fst r) = k)"

definition satisfies :: "equation list \<Rightarrow> real list \<Rightarrow> bool" where
  "satisfies rows ys \<longleftrightarrow> (\<forall>r\<in>set rows. dot (fst r) ys = snd r)"

text \<open>
  The forward elimination as the specification words it: sequentially for \<open>i\<close> from
  \<open>1\<close> to \<open>n - 2\<close>, \<open>u_i -= h_i\<^sup>2 / u_{i-1}\<close> and \<open>v_i -= v_{i-1} h_i / u_{i-1}\<close>, each
  step reading what the step before has written (\<open>m\<close> counts the steps left).
\<close>

fun thomas_forward ::
  "real list \<Rightarrow> nat \<Rightarrow> nat \<Rightarrow> real list \<times> real list \<Rightarrow> real list \<times> real list" where
  "thomas_forward h i 0 (u, v) = (u, v)"
| "thomas_forward h i (Suc m) (u, v) =
     thomas_forward h (Suc i) m
       (u[i := u ! i - (h ! i) ^ 2 / u ! (i - 1)],
        v[i := v ! i - v ! (i - 1) * h ! i / u ! (i - 1)])"

definition thomas_elimination :: "real list \<Rightarrow> real list \<Rightarrow> real list \<Rightarrow> real list \<times> real list" where
  "thomas_elimination h u v = thomas_forward h 1 (length h - 2) (u, v)"

text \<open>
  \<open>f\<close> has second derivative \<open>d\<close> at \<open>t\<close>: it is differentiable everywhere and its
  derivative has derivative \<open>d\<close> at \<open>t\<close>.
\<close>

definition has_second_derivative :: "(real \<Rightarrow> real) \<Rightarrow> real \<Rightarrow> real \<Rightarrow> bool" where
  "has_second_derivative f t d \<longleftrightarrow>
     (\<exists>f'. (\<forall>s. (f has_field_derivative f' s) (at s)) \<and> (f' has_field_derivative d) (at t))"

text \<open>The shape of a segment of \<open>cubic_spline4\<close>, and its two derivatives.\<close>

definition blend :: "real \<Rightarrow> real \<Rightarrow> real \<Rightarrow> real \<Rightarrow> real \<Rightarrow> real \<Rightarrow> real \<Rightarrow> real" where
  "blend A B C D X0 X1 t = A * (X1 - t) ^ 3 + B * (t - X0) ^ 3 + (C * (t - X0) + D * (X1 - t))"

definition d1blend :: "real \<Rightarrow> real \<Rightarrow> real \<Rightarrow> real \<Rightarrow> real \<Rightarrow> real \<Rightarrow> real \<Rightarrow> real" where
  "d1blend A B C D X0 X1 t = - 3 * A * (X1 - t) ^ 2 + 3 * B * (t - X0) ^ 2 + (C - D)"

definition d2blend :: "real \<Rightarrow> real \<Rightarrow> real \<Rightarrow> real \<Rightarrow> real \<Rightarrow> real" where
  "d2blend A B X0 X1 t = 6 * A * (X1 - t) + 6 * B * (t - X0)"


text \<open>\<open>builder(points)(q)\<close>: build, then evaluate at one query point.\<close>

definition built_value :: "(points \<Rightarrow> error + spline) \<Rightarrow> points \<Rightarrow> real \<Rightarrow> error + real" where
  "built_value builder pts q = (case builder pts of Inl e \<Rightarrow> Inl e | Inr sp \<Rightarrow> splines sp q)"

section \<open>Verification\<close>

subsection \<open>Gaussian elimination solves the system\<close>

lemma dot_Nil [simp]: "dot [] ys = 0" "dot xs [] = 0"
  by (simp_all add: dot_def)

lemma dot_Cons [simp]: "dot (a # as) (b # bs) = a * b + dot as bs"
  by (simp add: dot_def)

lemma dot_map2_sub:
  "length cs = length ps \<Longrightarrow>
   dot (map2 (\<lambda>a b. a - m * b) cs ps) ys = dot cs ys - m * dot ps ys"
proof (induction cs ps arbitrary: ys rule: list_induct2)
  case Nil
  then show ?case by simp
next
  case (Cons c cs p ps)
  then show ?case by (cases ys) (simp_all add: algebra_simps)
qed

lemma find_pivot_Some:
  "find_pivot rows = Some (p, rest) \<Longrightarrow>
   set rows = insert p (set rest) \<and> hd (fst p) \<noteq> 0 \<and> length rows = Suc (length rest)"
proof (induction rows arbitrary: rest)
  case Nil
  then show ?case by simp
next
  case (Cons r rs)
  then show ?case by (auto split: if_splits option.splits)
qed

lemma find_pivot_None:
  "find_pivot rows = None \<Longrightarrow> r \<in> set rows \<Longrightarrow> hd (fst r) = 0"
  by (induction rows) (auto split: if_splits option.splits)

lemma wf_rows_eliminate:
  assumes "wf_rows (Suc k) rows" "set rows = insert p (set rest)"
  shows "wf_rows k (map (eliminate p) rest)"
proof -
  have "length (fst p) = Suc k" using assms by (simp add: wf_rows_def)
  moreover have "\<forall>r\<in>set rest. length (fst r) = Suc k" using assms by (simp add: wf_rows_def)
  ultimately show ?thesis by (simp add: wf_rows_def eliminate_def Let_def)
qed

lemma eliminate_dot:
  assumes "length (fst p) = Suc k" "length (fst r) = Suc k"
  shows "dot (fst (eliminate p r)) ys
         = dot (tl (fst r)) ys - hd (fst r) / hd (fst p) * dot (tl (fst p)) ys"
proof -
  have "length (tl (fst r)) = length (tl (fst p))" using assms by simp
  from dot_map2_sub[OF this] show ?thesis by (simp only: eliminate_def Let_def fst_conv)
qed

lemma dot_hd_tl:
  "length cs = Suc k \<Longrightarrow> dot cs (y # ys) = hd cs * y + dot (tl cs) ys"
  by (cases cs) simp_all

lemma solve_rows_sound:
  "wf_rows k rows \<Longrightarrow> length rows = k \<Longrightarrow> solve_rows k rows = Some xs
   \<Longrightarrow> length xs = k \<and> satisfies rows xs"
proof (induction k arbitrary: rows xs)
  case 0
  then show ?case by (auto simp: satisfies_def wf_rows_def)
next
  case (Suc k)
  from Suc.prems(3) obtain p rest xs' where
    piv: "find_pivot rows = Some (p, rest)"
    and rec: "solve_rows k (map (eliminate p) rest) = Some xs'"
    and xs: "xs = (snd p - dot (tl (fst p)) xs') / hd (fst p) # xs'"
    by (auto split: option.splits)
  from find_pivot_Some[OF piv] have rows: "set rows = insert p (set rest)" and q: "hd (fst p) \<noteq> 0"
    and lrest: "length (map (eliminate p) rest) = k"
    using Suc.prems(2) by simp_all
  have wf': "wf_rows k (map (eliminate p) rest)"
    using wf_rows_eliminate[OF Suc.prems(1) rows] .
  from Suc.IH[OF wf' lrest rec] have len: "length xs' = k" and sat': "satisfies (map (eliminate p) rest) xs'"
    by simp_all
  have lp: "length (fst p) = Suc k" using Suc.prems(1) rows by (auto simp: wf_rows_def)
  have "dot (fst r) xs = snd r" if r: "r \<in> set rows" for r
  proof (cases "r = p")
    case True
    then show ?thesis using q lp by (simp add: xs dot_hd_tl)
  next
    case False
    then have rr: "r \<in> set rest" using r rows by auto
    have lr: "length (fst r) = Suc k" using Suc.prems(1) r by (auto simp: wf_rows_def)
    from sat' rr have "dot (fst (eliminate p r)) xs' = snd (eliminate p r)"
      by (auto simp: satisfies_def)
    then have "dot (tl (fst r)) xs' - hd (fst r) / hd (fst p) * dot (tl (fst p)) xs'
               = snd r - hd (fst r) / hd (fst p) * snd p"
      by (simp add: eliminate_dot[OF lp lr]) (simp add: eliminate_def Let_def)
    then show ?thesis using q lr by (simp add: xs dot_hd_tl field_simps)
  qed
  then show ?case using len by (simp add: satisfies_def xs)
qed


lemma solve_rows_complete:
  "wf_rows k rows \<Longrightarrow>
   (\<And>ys. length ys = k \<Longrightarrow> (\<forall>r\<in>set rows. dot (fst r) ys = 0) \<Longrightarrow> ys = replicate k 0)
   \<Longrightarrow> \<exists>xs. solve_rows k rows = Some xs"
proof (induction k arbitrary: rows)
  case 0
  then show ?case by simp
next
  case (Suc k)
  show ?case
  proof (cases "find_pivot rows")
    case None
    have "\<forall>r\<in>set rows. dot (fst r) (1 # replicate k 0) = 0"
    proof
      fix r assume r: "r \<in> set rows"
      then have lr: "length (fst r) = Suc k" using Suc.prems(1) by (auto simp: wf_rows_def)
      have z: "dot cs (replicate k 0) = 0" for cs
        by (induction cs arbitrary: k) (simp, case_tac k, simp_all)
      show "dot (fst r) (1 # replicate k 0) = 0"
        using find_pivot_None[OF None r] lr by (simp add: dot_hd_tl z)
    qed
    from Suc.prems(2)[OF _ this] show ?thesis by simp
  next
    case (Some a)
    then obtain p rest where piv: "find_pivot rows = Some (p, rest)" by (cases a) auto
    from find_pivot_Some[OF piv] have rows: "set rows = insert p (set rest)" and q: "hd (fst p) \<noteq> 0"
      by simp_all
    have wf': "wf_rows k (map (eliminate p) rest)"
      using wf_rows_eliminate[OF Suc.prems(1) rows] .
    have lp: "length (fst p) = Suc k" using Suc.prems(1) rows by (auto simp: wf_rows_def)
    have "ys' = replicate k 0"
      if lys: "length ys' = k" and hom: "\<forall>e\<in>set (map (eliminate p) rest). dot (fst e) ys' = 0"
      for ys'
    proof -
      define y1 where "y1 = - dot (tl (fst p)) ys' / hd (fst p)"
      have py: "hd (fst p) * y1 + dot (tl (fst p)) ys' = 0" using q by (simp add: y1_def)
      have "\<forall>r\<in>set rows. dot (fst r) (y1 # ys') = 0"
      proof
        fix r assume r: "r \<in> set rows"
        then have lr: "length (fst r) = Suc k" using Suc.prems(1) by (auto simp: wf_rows_def)
        show "dot (fst r) (y1 # ys') = 0"
        proof (cases "r = p")
          case True
          then show ?thesis using py lp by (simp add: dot_hd_tl)
        next
          case False
          then have "r \<in> set rest" using r rows by auto
          with hom have "dot (fst (eliminate p r)) ys' = 0" by auto
          then have "dot (tl (fst r)) ys' = hd (fst r) / hd (fst p) * dot (tl (fst p)) ys'"
            by (simp add: eliminate_dot[OF lp lr])
          moreover have "dot (tl (fst p)) ys' = - (hd (fst p) * y1)" using py by linarith
          ultimately show ?thesis using q lr by (simp add: dot_hd_tl)
        qed
      qed
      from Suc.prems(2)[OF _ this] lys have "y1 # ys' = replicate (Suc k) 0" by simp
      then show ?thesis by simp
    qed
    from Suc.IH[OF wf' this] obtain xs' where "solve_rows k (map (eliminate p) rest) = Some xs'"
      by blast
    then show ?thesis by (simp add: piv)
  qed
qed

lemma wf_rows_zip:
  "\<forall>row\<in>set M. length row = k \<Longrightarrow> wf_rows k (zip M A)"
  by (auto simp: wf_rows_def dest: set_zip_leftD)

lemma satisfies_zip:
  "length A = length M \<Longrightarrow> satisfies (zip M A) c \<longleftrightarrow> (\<forall>r<length M. dot (M ! r) c = A ! r)"
  by (auto simp: satisfies_def set_zip)

lemma solve_sound:
  assumes "\<forall>row\<in>set M. length row = length M" "length A = length M" "solve M A = Inr c"
  shows "length c = length M" and "r < length M \<Longrightarrow> dot (M ! r) c = A ! r"
proof -
  from assms(3) have s: "solve_rows (length M) (zip M A) = Some c"
    by (simp add: solve_def split: option.splits)
  have "length (zip M A) = length M" using assms(2) by simp
  from solve_rows_sound[OF wf_rows_zip[OF assms(1)] this s]
  have "length c = length M" "satisfies (zip M A) c" by simp_all
  then show "length c = length M" and "r < length M \<Longrightarrow> dot (M ! r) c = A ! r"
    using assms(2) by (simp_all add: satisfies_zip)
qed


lemma solve_complete:
  assumes "\<forall>row\<in>set M. length row = length M" "length A = length M"
    and "\<And>c'. length c' = length M \<Longrightarrow> \<forall>r<length M. dot (M ! r) c' = 0
           \<Longrightarrow> c' = replicate (length M) 0"
  shows "\<exists>c. solve M A = Inr c"
proof -
  have "c' = replicate (length M) 0"
    if "length c' = length M" "\<forall>e\<in>set (zip M A). dot (fst e) c' = 0" for c'
  proof -
    have "\<forall>r<length M. dot (M ! r) c' = 0"
    proof (intro allI impI)
      fix r assume "r < length M"
      then have "(M ! r, A ! r) \<in> set (zip M A)" using assms(2) by (auto simp: set_zip)
      with that(2) show "dot (M ! r) c' = 0" by fastforce
    qed
    from assms(3)[OF that(1) this] show ?thesis .
  qed
  from solve_rows_complete[OF wf_rows_zip[OF assms(1)] this]
  obtain xs where "solve_rows (length M) (zip M A) = Some xs" by blast
  then show ?thesis by (simp add: solve_def)
qed


subsection \<open>The rows of the dense system\<close>

lemma dot_replicate_zero [simp]: "dot (replicate k 0) c = 0"
proof (induction k arbitrary: c)
  case 0
  then show ?case by simp
next
  case (Suc k)
  then show ?case by (cases c) simp_all
qed

lemma dot_zeros_append: "dot (replicate m 0 @ xs) c = dot xs (drop m c)"
proof (induction m arbitrary: c)
  case 0
  then show ?case by simp
next
  case (Suc m)
  then show ?case by (cases c) simp_all
qed

lemma dot_append_zeros: "dot (xs @ replicate k 0) c = dot xs c"
proof (induction xs arbitrary: c)
  case Nil
  then show ?case by simp
next
  case (Cons a xs)
  then show ?case by (cases c) simp_all
qed

lemma dot_place: "dot (place w off vals) c = dot vals (drop off c)"
  by (simp add: place_def dot_zeros_append dot_append_zeros)

lemma dot_Cons_drop:
  "m < length c \<Longrightarrow> dot (v # vs) (drop m c) = v * c ! m + dot vs (drop (Suc m) c)"
  by (simp flip: Cons_nth_drop_Suc)

lemma reshape4_nth:
  "4 * i + 3 < length c \<Longrightarrow>
   reshape4 c ! i = [c ! (4 * i), c ! (4 * i + 1), c ! (4 * i + 2), c ! (4 * i + 3)]"
proof (induction c arbitrary: i rule: reshape4.induct)
  case (1 a b c d rest)
  show ?case
  proof (cases i)
    case 0
    then show ?thesis by simp
  next
    case (Suc j)
    then have "4 * j + 3 < length rest" using 1(2) by simp
    from 1(1)[OF this] show ?thesis by (simp add: Suc add.commute)
  qed
qed simp_all

lemma length_reshape4: "length (reshape4 c) = length c div 4"
  by (induction c rule: reshape4.induct) simp_all

lemma length_place: "off + length vals \<le> w \<Longrightarrow> length (place w off vals) = w"
  by (simp add: place_def)

lemma build_M_nth:
  assumes "2 \<le> length x"
  defines "n \<equiv> length x - 1"
  shows "i < n \<Longrightarrow> build_M x ! i = place (4 * n) (4 * i) [x ! i ^ 3, x ! i ^ 2, x ! i, 1]"
    and "i < n \<Longrightarrow> build_M x ! (n + i)
           = place (4 * n) (4 * i) [x ! (i + 1) ^ 3, x ! (i + 1) ^ 2, x ! (i + 1), 1]"
    and "i < n - 1 \<Longrightarrow> build_M x ! (2 * n + i)
           = place (4 * n) (4 * i) [x ! (i + 1) ^ 2 * 3, x ! (i + 1) * 2, 1, 0,
                                    - (x ! (i + 1) ^ 2 * 3), - (x ! (i + 1) * 2), - 1]"
    and "i < n - 1 \<Longrightarrow> build_M x ! (3 * n - 1 + i)
           = place (4 * n) (4 * i) [x ! (i + 1) * 6, 2, 0, 0, - (x ! (i + 1) * 6), - 2]"
    and "build_M x ! (4 * n - 2) = place (4 * n) 0 [x ! 0 * 6, 2]"
    and "build_M x ! (4 * n - 1) = place (4 * n) (4 * n - 4) [x ! n * 6, 2]"
    and "length (build_M x) = 4 * n"
proof -
  have n: "1 \<le> n" "length x = Suc n" using assms by simp_all
  have lst: "last (vander x) = [x ! n ^ 3, x ! n ^ 2, x ! n, 1]"
  proof -
    have "x \<noteq> []" using n by auto
    then show ?thesis using n by (simp add: vander_def last_map last_conv_nth)
  qed
  show "i < n \<Longrightarrow> build_M x ! i = place (4 * n) (4 * i) [x ! i ^ 3, x ! i ^ 2, x ! i, 1]"
    using n by (simp add: build_M_def Let_def nth_append vander_def)
  show "i < n \<Longrightarrow> build_M x ! (n + i)
           = place (4 * n) (4 * i) [x ! (i + 1) ^ 3, x ! (i + 1) ^ 2, x ! (i + 1), 1]"
    using n by (simp add: build_M_def Let_def nth_append vander_def)
  show "i < n - 1 \<Longrightarrow> build_M x ! (2 * n + i)
           = place (4 * n) (4 * i) [x ! (i + 1) ^ 2 * 3, x ! (i + 1) * 2, 1, 0,
                                    - (x ! (i + 1) ^ 2 * 3), - (x ! (i + 1) * 2), - 1]"
    using n by (simp add: build_M_def Let_def nth_append vander_def)
  show "i < n - 1 \<Longrightarrow> build_M x ! (3 * n - 1 + i)
           = place (4 * n) (4 * i) [x ! (i + 1) * 6, 2, 0, 0, - (x ! (i + 1) * 6), - 2]"
    using n by (cases n) (simp_all add: build_M_def Let_def nth_append vander_def)
  show "build_M x ! (4 * n - 2) = place (4 * n) 0 [x ! 0 * 6, 2]"
    using n by (cases n) (simp_all add: build_M_def Let_def nth_append vander_def)
  show "build_M x ! (4 * n - 1) = place (4 * n) (4 * n - 4) [x ! n * 6, 2]"
    using n lst by (cases n) (simp_all add: build_M_def Let_def nth_append)
  show "length (build_M x) = 4 * n"
    using n by (cases n) (simp_all add: build_M_def Let_def)
qed

lemma build_M_rows:
  assumes "2 \<le> length x" "row \<in> set (build_M x)"
  shows "length row = 4 * (length x - 1)"
proof -
  obtain m where m: "length x = Suc (Suc m)" using assms(1)
    by (metis Suc_le_D numeral_2_eq_2 Suc_le_mono le0 not0_implies_Suc not_less_eq_eq)
  have X: "length (vander x ! i) = 4" if "i < length x" for i
    using that by (simp add: vander_def)
  have L: "length (last (vander x)) = 4"
    using m by (simp add: vander_def last_map[of x] flip: length_greater_0_conv)
  from assms(2) show ?thesis
    using X L m by (auto simp: build_M_def Let_def place_def)
qed

lemma build_A_nth:
  assumes "2 \<le> length y"
  defines "n \<equiv> length y - 1"
  shows "i < n \<Longrightarrow> build_A y ! i = y ! i"
    and "i < n \<Longrightarrow> build_A y ! (n + i) = y ! (i + 1)"
    and "i < 2 * n \<Longrightarrow> build_A y ! (2 * n + i) = 0"
    and "length (build_A y) = 4 * n"
proof -
  have n: "length y = Suc n" "1 \<le> n" using assms by simp_all
  show "i < n \<Longrightarrow> build_A y ! i = y ! i"
    using n by (simp add: build_A_def Let_def nth_append nth_butlast)
  show "i < n \<Longrightarrow> build_A y ! (n + i) = y ! (i + 1)"
    using n by (simp add: build_A_def Let_def nth_append nth_tl)
  show "i < 2 * n \<Longrightarrow> build_A y ! (2 * n + i) = 0"
    using n by (simp add: build_A_def Let_def nth_append)
  show "length (build_A y) = 4 * n"
    using n by (simp add: build_A_def Let_def)
qed

lemma numeral_plus_nat: "numeral k + (m::nat) = Suc (pred_numeral k + m)"
  and plus_numeral_nat: "m + numeral k = Suc (m + pred_numeral k)"
  by (simp_all add: numeral_eq_Suc)

lemma dot_pair: "2 \<le> length c \<Longrightarrow> dot [a, b] c = a * c ! 0 + b * c ! Suc 0"
proof -
  assume "2 \<le> length c"
  then obtain c0 c1 cs where "c = c0 # c1 # cs"
    by (cases c; cases "tl c") auto
  then show ?thesis by simp
qed

lemma cubic_reshape4:
  "4 * i + 3 < length c \<Longrightarrow>
   cubic (reshape4 c ! i) t
   = c ! (4 * i) * t ^ 3 + c ! Suc (4 * i) * t ^ 2 + c ! Suc (Suc (4 * i)) * t
     + c ! Suc (Suc (Suc (4 * i)))"
  by (simp add: cubic_def reshape4_nth plus_numeral_nat)

lemma d1cubic_reshape4:
  "4 * i + 3 < length c \<Longrightarrow>
   d1cubic (reshape4 c ! i) t
   = 3 * c ! (4 * i) * t ^ 2 + 2 * c ! Suc (4 * i) * t + c ! Suc (Suc (4 * i))"
  by (simp add: d1cubic_def reshape4_nth plus_numeral_nat)

lemma d2cubic_reshape4:
  "4 * i + 3 < length c \<Longrightarrow>
   d2cubic (reshape4 c ! i) t = 6 * c ! (4 * i) * t + 2 * c ! Suc (4 * i)"
  by (simp add: d2cubic_def reshape4_nth plus_numeral_nat)

lemma four_Suc: "4 * Suc i = Suc (Suc (Suc (Suc (4 * i))))"
  by simp

lemma reshape4_nth_Suc:
  "4 * i + 3 < length c \<Longrightarrow>
   reshape4 c ! i = [c ! (4 * i), c ! Suc (4 * i), c ! Suc (Suc (4 * i)), c ! Suc (Suc (Suc (4 * i)))]"
  by (simp add: reshape4_nth plus_numeral_nat)

lemma dense_rows:
  assumes x: "2 \<le> length x" and y: "length y = length x"
  defines "n \<equiv> length x - 1"
  assumes lc: "length c = 4 * n"
    and row: "\<And>r. r < 4 * n \<Longrightarrow> dot (build_M x ! r) c = build_A y ! r"
  shows "i < n \<Longrightarrow> cubic (reshape4 c ! i) (x ! i) = y ! i"
    and "i < n \<Longrightarrow> cubic (reshape4 c ! i) (x ! (i + 1)) = y ! (i + 1)"
    and "i < n - 1 \<Longrightarrow>
           d1cubic (reshape4 c ! i) (x ! (i + 1)) = d1cubic (reshape4 c ! (i + 1)) (x ! (i + 1))"
    and "i < n - 1 \<Longrightarrow>
           d2cubic (reshape4 c ! i) (x ! (i + 1)) = d2cubic (reshape4 c ! (i + 1)) (x ! (i + 1))"
    and "d2cubic (reshape4 c ! 0) (x ! 0) = 0"
    and "d2cubic (reshape4 c ! (n - 1)) (x ! n) = 0"
proof -
  have n: "1 \<le> n" "length x = Suc n" "length y - 1 = n" using x y by (simp_all add: n_def)
  have y2: "2 \<le> length y" using x y by simp
  have lM: "length (build_M x) = 4 * n" using build_M_nth(7)[OF x] by (simp add: n_def)
  have lA: "length (build_A y) = length (build_M x)"
    using build_A_nth(4)[OF y2] lM n by simp
  note M = build_M_nth[OF x, folded n_def]
  note A = build_A_nth[OF y2, unfolded n]
  show "cubic (reshape4 c ! i) (x ! i) = y ! i" if i: "i < n"
  proof -
    have "dot (build_M x ! i) c = build_A y ! i" using row[of i] i by simp
    then have "dot (place (4 * n) (4 * i) [x ! i ^ 3, x ! i ^ 2, x ! i, 1]) c = y ! i"
      unfolding M(1)[OF i] A(1)[OF i] .
    then show ?thesis using i lc
      by (simp add: dot_place dot_Cons_drop cubic_reshape4 four_Suc numeral_plus_nat plus_numeral_nat algebra_simps)
  qed
  show "cubic (reshape4 c ! i) (x ! (i + 1)) = y ! (i + 1)" if i: "i < n"
  proof -
    have "dot (build_M x ! (n + i)) c = build_A y ! (n + i)" using row[of "n + i"] i by simp
    then have "dot (place (4 * n) (4 * i) [x ! (i + 1) ^ 3, x ! (i + 1) ^ 2, x ! (i + 1), 1]) c
               = y ! (i + 1)"
      unfolding M(2)[OF i] A(2)[OF i] .
    then show ?thesis using i lc
      by (simp add: dot_place dot_Cons_drop cubic_reshape4 four_Suc numeral_plus_nat plus_numeral_nat algebra_simps)
  qed
  show "d1cubic (reshape4 c ! i) (x ! (i + 1)) = d1cubic (reshape4 c ! (i + 1)) (x ! (i + 1))"
    if i: "i < n - 1"
  proof -
    have "dot (build_M x ! (2 * n + i)) c = build_A y ! (2 * n + i)"
      using row[of "2 * n + i"] i by simp
    moreover have "build_A y ! (2 * n + i) = 0" using i by (intro A(3)) simp
    ultimately have "dot (place (4 * n) (4 * i) [x ! (i + 1) ^ 2 * 3, x ! (i + 1) * 2, 1, 0,
                        - (x ! (i + 1) ^ 2 * 3), - (x ! (i + 1) * 2), - 1]) c = 0"
      unfolding M(3)[OF i] by simp
    then show ?thesis using i lc
      by (simp add: dot_place dot_Cons_drop d1cubic_reshape4 four_Suc numeral_plus_nat plus_numeral_nat algebra_simps)
  qed
  show "d2cubic (reshape4 c ! i) (x ! (i + 1)) = d2cubic (reshape4 c ! (i + 1)) (x ! (i + 1))"
    if i: "i < n - 1"
  proof -
    have e: "3 * n - 1 + i = 2 * n + (n - 1 + i)" using n by simp
    have "dot (build_M x ! (3 * n - 1 + i)) c = build_A y ! (3 * n - 1 + i)"
      using row[of "3 * n - 1 + i"] i by simp
    moreover have "build_A y ! (3 * n - 1 + i) = 0"
      unfolding e using i by (intro A(3)) simp
    ultimately have "dot (place (4 * n) (4 * i)
                        [x ! (i + 1) * 6, 2, 0, 0, - (x ! (i + 1) * 6), - 2]) c = 0"
      unfolding M(4)[OF i] by simp
    then show ?thesis using i lc
      by (simp add: dot_place dot_Cons_drop d2cubic_reshape4 four_Suc numeral_plus_nat plus_numeral_nat algebra_simps)
  qed
  show "d2cubic (reshape4 c ! 0) (x ! 0) = 0"
  proof -
    have e: "4 * n - 2 = 2 * n + (2 * n - 2)" using n by simp
    have "dot (build_M x ! (4 * n - 2)) c = build_A y ! (4 * n - 2)"
      using row[of "4 * n - 2"] n by simp
    moreover have "build_A y ! (4 * n - 2) = 0"
      unfolding e using n by (intro A(3)) simp
    ultimately have "dot (place (4 * n) 0 [x ! 0 * 6, 2]) c = 0"
      unfolding M(5) by simp
    then show ?thesis using n lc
      by (simp add: dot_place dot_pair d2cubic_reshape4[of 0, simplified] four_Suc numeral_plus_nat plus_numeral_nat algebra_simps)
  qed
  show "d2cubic (reshape4 c ! (n - 1)) (x ! n) = 0"
  proof -
    have e: "4 * n - 1 = 2 * n + (2 * n - 1)" using n by simp
    have "dot (build_M x ! (4 * n - 1)) c = build_A y ! (4 * n - 1)"
      using row[of "4 * n - 1"] n by simp
    moreover have "build_A y ! (4 * n - 1) = 0"
      unfolding e using n by (intro A(3)) simp
    ultimately have "dot (place (4 * n) (4 * n - 4) [x ! n * 6, 2]) c = 0"
      unfolding M(6) by simp
    moreover have "4 * n - 4 = 4 * (n - 1)" using n by simp
    ultimately show ?thesis using n lc
      by (simp add: dot_place dot_Cons_drop d2cubic_reshape4 four_Suc numeral_plus_nat plus_numeral_nat algebra_simps)
  qed
qed

lemma dense_system:
  assumes x: "2 \<le> length x" and y: "length y = length x"
    and s: "solve (build_M x) (build_A y) = Inr c"
  defines "n \<equiv> length x - 1"
  shows "length c = 4 * n"
    and "i < n \<Longrightarrow> cubic (reshape4 c ! i) (x ! i) = y ! i"
    and "i < n \<Longrightarrow> cubic (reshape4 c ! i) (x ! (i + 1)) = y ! (i + 1)"
    and "i < n - 1 \<Longrightarrow>
           d1cubic (reshape4 c ! i) (x ! (i + 1)) = d1cubic (reshape4 c ! (i + 1)) (x ! (i + 1))"
    and "i < n - 1 \<Longrightarrow>
           d2cubic (reshape4 c ! i) (x ! (i + 1)) = d2cubic (reshape4 c ! (i + 1)) (x ! (i + 1))"
    and "d2cubic (reshape4 c ! 0) (x ! 0) = 0"
    and "d2cubic (reshape4 c ! (n - 1)) (x ! n) = 0"
proof -
  have y2: "2 \<le> length y" using x y by simp
  have lM: "length (build_M x) = 4 * n" using build_M_nth(7)[OF x] by (simp add: n_def)
  have lA: "length (build_A y) = length (build_M x)"
    using build_A_nth(4)[OF y2] lM y by (simp add: n_def)
  have wf: "\<forall>row\<in>set (build_M x). length row = length (build_M x)"
    using build_M_rows[OF x] lM by (simp add: n_def)
  show lc: "length c = 4 * n" using solve_sound(1)[OF wf lA s] lM by simp
  have row: "dot (build_M x ! r) c = build_A y ! r" if "r < 4 * n" for r
    using solve_sound(2)[OF wf lA s] that lM by simp
  note d = dense_rows[OF x y lc[unfolded n_def] row[unfolded n_def], folded n_def]
  show "i < n \<Longrightarrow> cubic (reshape4 c ! i) (x ! i) = y ! i"
    and "i < n \<Longrightarrow> cubic (reshape4 c ! i) (x ! (i + 1)) = y ! (i + 1)"
    and "i < n - 1 \<Longrightarrow>
           d1cubic (reshape4 c ! i) (x ! (i + 1)) = d1cubic (reshape4 c ! (i + 1)) (x ! (i + 1))"
    and "i < n - 1 \<Longrightarrow>
           d2cubic (reshape4 c ! i) (x ! (i + 1)) = d2cubic (reshape4 c ! (i + 1)) (x ! (i + 1))"
    and "d2cubic (reshape4 c ! 0) (x ! 0) = 0"
    and "d2cubic (reshape4 c ! (n - 1)) (x ! n) = 0"
    using d by blast+
qed


subsection \<open>Derivatives of the segments\<close>

lemma cubic_derivs:
  "((cubic co) has_field_derivative d1cubic co t) (at t)"
  "((d1cubic co) has_field_derivative d2cubic co t) (at t)"
proof -
  have "cubic co = (\<lambda>s. co ! 0 * s ^ 3 + co ! 1 * s ^ 2 + co ! 2 * s + co ! 3)"
    by (rule ext) (simp add: cubic_def)
  moreover have "((\<lambda>s. co ! 0 * s ^ 3 + co ! 1 * s ^ 2 + co ! 2 * s + co ! 3)
                  has_field_derivative d1cubic co t) (at t)"
    unfolding d1cubic_def by (auto intro!: derivative_eq_intros)
  ultimately show "((cubic co) has_field_derivative d1cubic co t) (at t)" by simp
  have "d1cubic co = (\<lambda>s. 3 * co ! 0 * s ^ 2 + 2 * co ! 1 * s + co ! 2)"
    by (rule ext) (simp add: d1cubic_def)
  moreover have "((\<lambda>s. 3 * co ! 0 * s ^ 2 + 2 * co ! 1 * s + co ! 2)
                  has_field_derivative d2cubic co t) (at t)"
    unfolding d2cubic_def by (auto intro!: derivative_eq_intros)
  ultimately show "((d1cubic co) has_field_derivative d2cubic co t) (at t)" by simp
qed

lemma cubic_second_derivative: "has_second_derivative (cubic co) t (d2cubic co t)"
  unfolding has_second_derivative_def using cubic_derivs by blast

lemma blend_derivs:
  "((blend A B C D X0 X1) has_field_derivative d1blend A B C D X0 X1 t) (at t)"
  "((d1blend A B C D X0 X1) has_field_derivative d2blend A B X0 X1 t) (at t)"
proof -
  have "blend A B C D X0 X1
        = (\<lambda>s. A * (X1 - s) ^ 3 + B * (s - X0) ^ 3 + (C * (s - X0) + D * (X1 - s)))"
    by (rule ext) (simp add: blend_def)
  moreover have "((\<lambda>s. A * (X1 - s) ^ 3 + B * (s - X0) ^ 3 + (C * (s - X0) + D * (X1 - s)))
                  has_field_derivative d1blend A B C D X0 X1 t) (at t)"
    unfolding d1blend_def by (auto intro!: derivative_eq_intros simp: algebra_simps)
  ultimately show "((blend A B C D X0 X1) has_field_derivative d1blend A B C D X0 X1 t) (at t)"
    by simp
  have "d1blend A B C D X0 X1 = (\<lambda>s. - 3 * A * (X1 - s) ^ 2 + 3 * B * (s - X0) ^ 2 + (C - D))"
    by (rule ext) (simp add: d1blend_def)
  moreover have "((\<lambda>s. - 3 * A * (X1 - s) ^ 2 + 3 * B * (s - X0) ^ 2 + (C - D))
                  has_field_derivative d2blend A B X0 X1 t) (at t)"
    unfolding d2blend_def by (auto intro!: derivative_eq_intros simp: algebra_simps)
  ultimately show "((d1blend A B C D X0 X1) has_field_derivative d2blend A B X0 X1 t) (at t)"
    by simp
qed

lemma segment_blend:
  assumes "length y = length x" "length z = length x" "i < length x - 1"
  shows "segment x y z i =
     blend (z ! i / (6 * (x ! Suc i - x ! i))) (z ! Suc i / (6 * (x ! Suc i - x ! i)))
           (y ! Suc i / (x ! Suc i - x ! i) - z ! Suc i * (x ! Suc i - x ! i) / 6)
           (y ! i / (x ! Suc i - x ! i) - z ! i * (x ! Suc i - x ! i) / 6)
           (x ! i) (x ! Suc i)"
proof
  fix t
  have h: "widths x ! i = x ! Suc i - x ! i" "i < length (widths x)"
    using assms by (simp_all add: widths_def nth_tl nth_butlast)
  show "segment x y z i t =
     blend (z ! i / (6 * (x ! Suc i - x ! i))) (z ! Suc i / (6 * (x ! Suc i - x ! i)))
           (y ! Suc i / (x ! Suc i - x ! i) - z ! Suc i * (x ! Suc i - x ! i) / 6)
           (y ! i / (x ! Suc i - x ! i) - z ! i * (x ! Suc i - x ! i) / 6)
           (x ! i) (x ! Suc i) t"
    using assms h by (simp add: segment_def Let_def blend_def nth_tl nth_butlast)
qed

lemma blend_second_derivative:
  "has_second_derivative (blend A B C D X0 X1) t (d2blend A B X0 X1 t)"
  unfolding has_second_derivative_def using blend_derivs by blast

lemma blend_ends:
  assumes "h \<noteq> 0"
  shows "blend (zi / (6 * h)) (zj / (6 * h)) (yj / h - zj * h / 6) (yi / h - zi * h / 6)
           X0 (X0 + h) X0 = yi"
    and "blend (zi / (6 * h)) (zj / (6 * h)) (yj / h - zj * h / 6) (yi / h - zi * h / 6)
           X0 (X0 + h) (X0 + h) = yj"
proof -
  have a: "zi / (6 * h) * h ^ 3 = zi * h ^ 2 / 6" "zj / (6 * h) * h ^ 3 = zj * h ^ 2 / 6"
    using assms by (simp_all add: field_simps power3_eq_cube power2_eq_square)
  have b: "(yi / h - zi * h / 6) * h = yi - zi * h ^ 2 / 6"
    "(yj / h - zj * h / 6) * h = yj - zj * h ^ 2 / 6"
    using assms by (simp_all add: field_simps power2_eq_square)
  have e: "X0 + h - X0 = h" "X0 - X0 = 0" "X0 + h - (X0 + h) = 0" by simp_all
  show "blend (zi / (6 * h)) (zj / (6 * h)) (yj / h - zj * h / 6) (yi / h - zi * h / 6)
           X0 (X0 + h) X0 = yi"
    unfolding blend_def e a b by simp
  show "blend (zi / (6 * h)) (zj / (6 * h)) (yj / h - zj * h / 6) (yi / h - zi * h / 6)
           X0 (X0 + h) (X0 + h) = yj"
    unfolding blend_def e a b by simp
qed

lemma cubic_end_slopes:
  assumes ne: "X0 \<noteq> X1" and p0: "cubic co X0 = 0" and p1: "cubic co X1 = 0"
  shows "6 * d1cubic co X1 = (X1 - X0) * (d2cubic co X0 + 2 * d2cubic co X1)"
    and "6 * d1cubic co X0 = - (X1 - X0) * (2 * d2cubic co X0 + d2cubic co X1)"
proof -
  define a b c d where "a = co ! 0" and "b = co ! 1" and "c = co ! 2" and "d = co ! 3"
  have "a * X1 ^ 3 + b * X1 ^ 2 + c * X1 + d - (a * X0 ^ 3 + b * X0 ^ 2 + c * X0 + d) = 0"
    using p0 p1 by (simp add: cubic_def a_def b_def c_def d_def)
  moreover have "a * X1 ^ 3 + b * X1 ^ 2 + c * X1 + d - (a * X0 ^ 3 + b * X0 ^ 2 + c * X0 + d)
      = (X1 - X0) * (a * (X1 ^ 2 + X1 * X0 + X0 ^ 2) + b * (X1 + X0) + c)"
    by (simp add: algebra_simps power3_eq_cube power2_eq_square)
  ultimately have "(X1 - X0) * (a * (X1 ^ 2 + X1 * X0 + X0 ^ 2) + b * (X1 + X0) + c) = 0"
    by simp
  then have c: "c = - (a * (X1 ^ 2 + X1 * X0 + X0 ^ 2) + b * (X1 + X0))"
    using ne by simp
  show "6 * d1cubic co X1 = (X1 - X0) * (d2cubic co X0 + 2 * d2cubic co X1)"
    unfolding d1cubic_def d2cubic_def a_def[symmetric] b_def[symmetric] c_def[symmetric] c
    by (simp add: algebra_simps power2_eq_square)
  show "6 * d1cubic co X0 = - (X1 - X0) * (2 * d2cubic co X0 + d2cubic co X1)"
    unfolding d1cubic_def d2cubic_def a_def[symmetric] b_def[symmetric] c_def[symmetric] c
    by (simp add: algebra_simps power2_eq_square)
qed

lemma cubic_line:
  assumes "X0 \<noteq> X1" "length co = 4"
    and "cubic co X0 = Y0" "cubic co X1 = Y1" "d2cubic co X0 = 0" "d2cubic co X1 = 0"
  shows "co ! 0 = 0" "co ! 1 = 0" "cubic co q = Y0 + (Y1 - Y0) * (q - X0) / (X1 - X0)"
proof -
  have e: "6 * (co ! 0 * X0) + 2 * co ! 1 = 0" "6 * (co ! 0 * X1) + 2 * co ! 1 = 0"
    using assms(5,6) by (simp_all add: d2cubic_def)
  then have "co ! 0 * X1 = co ! 0 * X0" by linarith
  then have "co ! 0 * (X1 - X0) = 0" by (simp add: algebra_simps)
  then show a: "co ! 0 = 0" using assms(1) by simp
  then show b: "co ! 1 = 0" using assms(5) by (simp add: d2cubic_def)
  have l: "co ! 2 * X0 + co ! 3 = Y0" "co ! 2 * X1 + co ! 3 = Y1"
    using assms(3,4) a b by (simp_all add: cubic_def)
  then have "co ! 2 * X1 - co ! 2 * X0 = Y1 - Y0" by linarith
  then have "co ! 2 * (X1 - X0) = Y1 - Y0" by (simp add: algebra_simps)
  then have c: "co ! 2 = (Y1 - Y0) / (X1 - X0)" using assms(1) by (simp add: field_simps)
  have "cubic co q = co ! 2 * (q - X0) + Y0" using a b l by (simp add: cubic_def algebra_simps)
  then show "cubic co q = Y0 + (Y1 - Y0) * (q - X0) / (X1 - X0)" by (simp add: c)
qed

subsection \<open>The sorted points and the returned closure\<close>

lemma map_points_in_range:
  assumes n: "0 < nseg sp" and lt: "start sp < stop sp"
    and p: "start sp \<le> p" "p \<le> stop sp"
  shows "\<exists>k. map_points sp p = Inr k \<and> 0 \<le> k \<and> k < nseg sp"
proof (cases "p = stop sp")
  case True
  then show ?thesis using n by (simp add: map_points_def)
next
  case False
  let ?w = "rang sp / real_of_int (nseg sp)"
  have w: "0 < ?w" using n lt by (simp add: rang_def)
  have lo: "0 \<le> (p - start sp) / ?w" using w p by (intro divide_nonneg_pos) simp_all
  have "p - start sp < rang sp" using False p by (simp add: rang_def)
  moreover have "0 < rang sp" using lt by (simp add: rang_def)
  ultimately have "(p - start sp) / rang sp < 1" by simp
  then have "(p - start sp) / rang sp * real_of_int (nseg sp) < 1 * real_of_int (nseg sp)"
    using n by (intro mult_strict_right_mono) simp_all
  then have hi: "(p - start sp) / ?w < real_of_int (nseg sp)" by simp
  have "0 \<le> \<lfloor>(p - start sp) / ?w\<rfloor>" using lo by simp
  moreover have "\<lfloor>(p - start sp) / ?w\<rfloor> < nseg sp" using hi by (simp add: floor_less_iff)
  moreover have "?w \<noteq> 0" "nseg sp \<noteq> 0" using n lt by (simp_all add: rang_def)
  ultimately show ?thesis using False unfolding map_points_def by simp
qed

lemma py_index_in_range:
  "0 \<le> k \<Longrightarrow> k < int (length xs) \<Longrightarrow> py_index xs k = Inr (xs ! nat k)"
  by (simp add: py_index_def Let_def)

lemma sorted_x_props:
  assumes "valid_points pts"
  shows "sorted (sorted_x pts)" "distinct (sorted_x pts)" "length (sorted_x pts) = length pts"
    "length (sorted_y pts) = length pts" "2 \<le> length (sorted_x pts)"
proof -
  show "sorted (sorted_x pts)" by (simp add: sorted_x_def)
  have "mset (sorted_x pts) = mset (map fst pts)" by (simp add: sorted_x_def)
  then show "distinct (sorted_x pts)"
    using assms by (metis valid_points_def mset_eq_imp_distinct_iff)
  show "length (sorted_x pts) = length pts" "length (sorted_y pts) = length pts"
    by (simp_all add: sorted_x_def sorted_y_def)
  then show "2 \<le> length (sorted_x pts)" using assms by (simp add: valid_points_def)
qed

lemma sorted_x_strict:
  assumes "valid_points pts" "i < j" "j < length pts"
  shows "sorted_x pts ! i < sorted_x pts ! j"
proof -
  have "sorted_wrt (<) (sorted_x pts)"
    using sorted_x_props(1,2)[OF assms(1)] by (simp add: strict_sorted_iff)
  then show ?thesis
    using assms(2,3) sorted_x_props(3)[OF assms(1)] by (simp add: sorted_wrt_nth_less)
qed

lemma Min_sorted: "sorted xs \<Longrightarrow> xs \<noteq> [] \<Longrightarrow> Min (set xs) = hd xs"
  by (cases xs) (auto intro!: Min_eqI)

lemma Max_sorted: "sorted xs \<Longrightarrow> xs \<noteq> [] \<Longrightarrow> Max (set xs) = last xs"
proof (rule Max_eqI)
  assume s: "sorted xs" and ne: "xs \<noteq> []"
  show "finite (set xs)" by simp
  show "last xs \<in> set xs" using ne by simp
  fix y assume "y \<in> set xs"
  then obtain i where i: "i < length xs" "y = xs ! i" by (auto simp: in_set_conv_nth)
  then have "xs ! i \<le> xs ! (length xs - 1)" using s by (intro sorted_nth_mono) auto
  then show "y \<le> last xs" using i ne by (simp add: last_conv_nth)
qed

lemma map_S_fields:
  fixes S :: "(real \<Rightarrow> real) list"
  assumes "valid_points pts"
  defines "sp \<equiv> map_S S (sort_key fst pts)"
  shows "start sp = sorted_x pts ! 0" "stop sp = sorted_x pts ! (length pts - 1)"
    "nseg sp = int (length pts) - 1" "func sp = S" "start sp < stop sp"
proof -
  have ne: "sorted_x pts \<noteq> []" and len: "length (sorted_x pts) = length pts"
    and l2: "2 \<le> length pts"
    using sorted_x_props[OF assms(1)] by auto
  show a: "start sp = sorted_x pts ! 0"
    using ne sorted_x_props(1)[OF assms(1)]
    by (simp add: sp_def map_S_def Min_sorted hd_conv_nth flip: sorted_x_def)
  show b: "stop sp = sorted_x pts ! (length pts - 1)"
    using ne sorted_x_props(1)[OF assms(1)] len
    by (simp add: sp_def map_S_def Max_sorted last_conv_nth flip: sorted_x_def)
  show "nseg sp = int (length pts) - 1" "func sp = S"
    by (simp_all add: sp_def map_S_def)
  show "start sp < stop sp"
    unfolding a b using l2 by (intro sorted_x_strict[OF assms(1)]) simp_all
qed

lemma cubic_spline4_Inr:
  "pts \<noteq> [] \<Longrightarrow> cubic_spline4 pts =
     Inr (map_S (map (segment (sorted_x pts) (sorted_y pts)
                        (moments (sorted_x pts) (sorted_y pts))) [0..<length pts - 1])
                (sort_key fst pts))"
  by (simp add: cubic_spline4_def Let_def sorted_x_def sorted_y_def)

lemma cubic_spline4_matrix_Inr:
  assumes "cubic_spline4_matrix pts = Inr sp"
  obtains c where "2 \<le> length pts"
    and "solve (build_M (sorted_x pts)) (build_A (sorted_y pts)) = Inr c"
    and "sp = map_S (map cubic (reshape4 c)) (sort_key fst pts)"
  using assms
  by (auto simp: cubic_spline4_matrix_def dense_coeff_def Let_def sorted_x_def sorted_y_def
           split: sum.splits if_splits)

lemma built_spline:
  assumes v: "valid_points pts"
    and b: "cubic_spline4 pts = Inr sp \<or> cubic_spline4_matrix pts = Inr sp"
  shows "start sp = sorted_x pts ! 0" "stop sp = sorted_x pts ! (length pts - 1)"
    "nseg sp = int (length pts) - 1" "length (func sp) = length pts - 1" "start sp < stop sp"
proof -
  have ne: "pts \<noteq> []" using v by (auto simp: valid_points_def)
  from b have "\<exists>S. sp = map_S S (sort_key fst pts) \<and> length S = length pts - 1"
  proof
    assume "cubic_spline4 pts = Inr sp"
    then show ?thesis using ne by (auto simp: cubic_spline4_Inr)
  next
    assume "cubic_spline4_matrix pts = Inr sp"
    then obtain c where c: "solve (build_M (sorted_x pts)) (build_A (sorted_y pts)) = Inr c"
      and sp: "sp = map_S (map cubic (reshape4 c)) (sort_key fst pts)"
      by (rule cubic_spline4_matrix_Inr)
    have "length c = 4 * (length (sorted_x pts) - 1)"
      using sorted_x_props[OF v] by (intro dense_system(1)[OF _ _ c]) simp_all
    then have "length (map cubic (reshape4 c)) = length pts - 1"
      using sorted_x_props(3)[OF v] by (simp add: length_reshape4)
    with sp show ?thesis by blast
  qed
  then obtain S where sp: "sp = map_S S (sort_key fst pts)" and S: "length S = length pts - 1"
    by blast
  show "start sp = sorted_x pts ! 0" "stop sp = sorted_x pts ! (length pts - 1)"
    "nseg sp = int (length pts) - 1" "length (func sp) = length pts - 1" "start sp < stop sp"
    using map_S_fields[OF v, of S] S by (simp_all add: sp)
qed

lemma map_points_segment_index:
  assumes "0 < nseg sp" "start sp < stop sp"
  shows "map_points sp p = Inr (segment_index sp p)"
  using assms by (simp add: map_points_def segment_index_def rang_def)

lemma in_domain_lookup:
  assumes "valid_points pts"
    and "cubic_spline4 pts = Inr sp \<or> cubic_spline4_matrix pts = Inr sp"
    and "start sp \<le> p" and "p \<le> stop sp"
  shows "\<exists>k. map_points sp p = Inr k \<and> 0 \<le> k \<and> k < nseg sp
           \<and> nseg sp = int (length (func sp))
           \<and> py_index (func sp) k = Inr (func sp ! nat k)
           \<and> splines sp p = Inr ((func sp ! nat k) p)"
proof -
  note b = built_spline[OF assms(1,2)]
  have l2: "2 \<le> length pts" using assms(1) by (simp add: valid_points_def)
  have n: "0 < nseg sp" "nseg sp = int (length (func sp))" using b(3,4) l2 by simp_all
  from map_points_in_range[OF n(1) b(5) assms(3,4)]
  obtain k where k: "map_points sp p = Inr k" "0 \<le> k" "k < nseg sp" by blast
  have "py_index (func sp) k = Inr (func sp ! nat k)"
    using k n by (intro py_index_in_range) simp_all
  then show ?thesis using k n by (auto simp: splines_def)
qed

lemma segment_lookup:
  assumes "valid_points pts"
    and "cubic_spline4 pts = Inr sp \<or> cubic_spline4_matrix pts = Inr sp"
  shows "start sp = Min (fst ` set pts) \<and> stop sp = Max (fst ` set pts)
       \<and> nseg sp = int (length pts) - 1
       \<and> (\<forall>p. map_points sp p = Inr (segment_index sp p))
       \<and> (\<forall>p. start sp \<le> p \<and> p \<le> stop sp
              \<longrightarrow> splines sp p = Inr ((func sp ! nat (segment_index sp p)) p))
       \<and> (\<forall>p v. splines sp p = Inr v
              \<longrightarrow> (\<exists>f. py_index (func sp) (segment_index sp p) = Inr f \<and> v = f p))"
proof -
  note b = built_spline[OF assms]
  have l2: "2 \<le> length pts" using assms(1) by (simp add: valid_points_def)
  have n: "0 < nseg sp" using b(3) l2 by simp
  have mp: "map_points sp p = Inr (segment_index sp p)" for p
    using map_points_segment_index[OF n b(5)] .
  have ne: "sorted_x pts \<noteq> []" and srt: "sorted (sorted_x pts)"
    and len: "length (sorted_x pts) = length pts"
    using sorted_x_props[OF assms(1)] by auto
  have set: "set (sorted_x pts) = fst ` set pts" by (simp add: sorted_x_def)
  have "start sp = Min (fst ` set pts)"
    using Min_sorted[OF srt ne] ne by (simp add: b(1) set hd_conv_nth)
  moreover have "stop sp = Max (fst ` set pts)"
    using Max_sorted[OF srt ne] ne len by (simp add: b(2) set last_conv_nth)
  moreover have "splines sp p = Inr ((func sp ! nat (segment_index sp p)) p)"
    if "start sp \<le> p \<and> p \<le> stop sp" for p
    using in_domain_lookup[OF assms, of p] that by (auto simp: mp)
  moreover have "\<exists>f. py_index (func sp) (segment_index sp p) = Inr f \<and> v = f p"
    if "splines sp p = Inr v" for p v
    using that by (auto simp: splines_def mp split: sum.splits)
  ultimately show ?thesis using b(3) mp by blast
qed


lemma sort_key_permuted:
  assumes "distinct (map fst pts)" "mset pts' = mset pts"
  shows "sort_key fst pts' = sort_key fst pts"
proof (rule sort_key_inj_key_eq)
  show "mset pts' = mset (sort_key fst pts)" using assms(2) by simp
  have "set pts' = set pts" using assms(2) by (rule mset_eq_setD)
  then show "inj_on fst (set pts')" using assms(1) by (simp add: distinct_map)
  show "sorted (map fst (sort_key fst pts))" by simp
qed

lemma builders_permuted:
  assumes "valid_points pts" and "mset pts' = mset pts"
  shows "cubic_spline4 pts' = cubic_spline4 pts"
    and "cubic_spline4_matrix pts' = cubic_spline4_matrix pts"
    and "dense_coeff pts' = dense_coeff pts"
    and "sort_key fst pts' = sort_key fst pts"
proof -
  have s: "sort_key fst pts' = sort_key fst pts"
    using assms by (intro sort_key_permuted) (simp_all add: valid_points_def)
  have l: "length pts' = length pts" using assms(2) by (rule mset_eq_length)
  then have e: "pts' = [] \<longleftrightarrow> pts = []" by auto
  have d: "dense_coeff pts' = dense_coeff pts"
    by (simp add: dense_coeff_def s l)
  show "cubic_spline4 pts' = cubic_spline4 pts"
    by (simp add: cubic_spline4_def s l e)
  show "cubic_spline4_matrix pts' = cubic_spline4_matrix pts"
    unfolding cubic_spline4_matrix_def d s ..
  show "dense_coeff pts' = dense_coeff pts" by (rule d)
  show "sort_key fst pts' = sort_key fst pts" by (rule s)
qed


subsection \<open>The moments\<close>

lemma back_subst_keeps:
  "length (back_subst h u v k z) = length z"
  "j = 0 \<or> k < j \<Longrightarrow> back_subst h u v k z ! j = z ! j"
  by (induction k arbitrary: z) auto

lemma moments_ends:
  "length (moments x y) = length x - 1 + 1"
  "moments x y ! 0 = 0" "moments x y ! (length x - 1) = 0"
proof -
  define n where "n = length x - 1"
  obtain h u v where m: "moments x y = back_subst h u v (n - 1) (replicate (n + 1) 0)"
    unfolding moments_def Let_def n_def by blast
  show "length (moments x y) = length x - 1 + 1"
    unfolding m back_subst_keeps(1) by (simp add: n_def)
  show "moments x y ! 0 = 0"
    unfolding m by (subst back_subst_keeps(2)) simp_all
  have "n = 0 \<or> n - 1 < n" by arith
  then have "back_subst h u v (n - 1) (replicate (n + 1) 0) ! n = replicate (n + 1) 0 ! n"
    by (rule back_subst_keeps(2))
  moreover have "replicate (n + 1) (0::real) ! n = 0"
    by (rule nth_replicate) simp
  ultimately show "moments x y ! (length x - 1) = 0"
    unfolding m n_def[symmetric] by (simp only:)
qed

lemma elimination_agrees_small:
  assumes "length h \<le> 3" "length u = length h - 1" "length v = length h - 1"
  shows "(rank_u h u, rank_v h (rank_u h u) v) = thomas_elimination h u v"
proof -
  consider "h = []" | a where "h = [a]" | a b where "h = [a, b]" | a b c where "h = [a, b, c]"
    using assms(1) by (cases h; cases "tl h"; cases "tl (tl h)"; cases "tl (tl (tl h))") auto
  then show ?thesis
  proof cases
    case 1
    then show ?thesis using assms by (simp add: rank_u_def rank_v_def thomas_elimination_def)
  next
    case 2
    then show ?thesis using assms by (simp add: rank_u_def rank_v_def thomas_elimination_def)
  next
    case 3
    then obtain u0 v0 where "u = [u0]" "v = [v0]" using assms
      by (cases u; cases v) auto
    then show ?thesis using 3 by (simp add: rank_u_def rank_v_def thomas_elimination_def)
  next
    case 4
    then obtain u0 u1 v0 v1 where "u = [u0, u1]" "v = [v0, v1]" using assms
      by (cases u; cases "tl u"; cases v; cases "tl v") auto
    then show ?thesis using 4
      by (simp add: rank_u_def rank_v_def thomas_elimination_def eval_nat_numeral)
  qed
qed

subsection \<open>Interpolation, boundary and continuity of the segments\<close>

lemma moments_boundary:
  assumes v: "valid_points pts" and b: "cubic_spline4 pts = Inr sp"
  shows "has_second_derivative (func sp ! 0) (start sp) 0"
    and "has_second_derivative (func sp ! (length (func sp) - 1)) (stop sp) 0"
proof -
  define X Y Z n where "X = sorted_x pts" and "Y = sorted_y pts"
    and "Z = moments (sorted_x pts) (sorted_y pts)" and "n = length pts - 1"
  have l2: "2 \<le> length pts" and ne: "pts \<noteq> []" using v by (auto simp: valid_points_def)
  have n: "1 \<le> n" "length X = Suc n" "length Y = Suc n" "length Z = Suc n"
    using l2 sorted_x_props(3,4)[OF v] moments_ends(1)[of X Y]
    by (simp_all add: X_def Y_def Z_def n_def)
  have z: "Z ! 0 = 0" "Z ! n = 0"
    using moments_ends(2,3)[of X Y] n by (simp_all add: Z_def X_def Y_def)
  note bs = built_spline[OF v disjI1[OF b]]
  have f: "func sp = map (segment X Y Z) [0..<n]"
    using b ne by (auto simp: cubic_spline4_Inr X_def Y_def Z_def n_def map_S_def)
  have e: "start sp = X ! 0" "stop sp = X ! n" using bs(1,2) by (simp_all add: X_def n_def)
  have s0: "func sp ! 0 = segment X Y Z 0" and sn: "func sp ! (length (func sp) - 1) = segment X Y Z (n - 1)"
    using n by (simp_all add: f)
  have "has_second_derivative (segment X Y Z 0) (X ! 0) 0"
  proof -
    have "0 < length X - 1" using n by simp
    from segment_blend[OF _ _ this, of Y Z] n z
    obtain B C D where "segment X Y Z 0 = blend 0 B C D (X ! 0) (X ! Suc 0)" by simp
    moreover have "d2blend 0 B (X ! 0) (X ! Suc 0) (X ! 0) = 0" by (simp add: d2blend_def)
    ultimately show ?thesis using blend_second_derivative[of 0 B C D "X ! 0" "X ! Suc 0" "X ! 0"] by simp
  qed
  then show "has_second_derivative (func sp ! 0) (start sp) 0"
    by (simp only: s0 e)
  have "has_second_derivative (segment X Y Z (n - 1)) (X ! n) 0"
  proof -
    have "n - 1 < length X - 1" "Suc (n - 1) = n" using n by simp_all
    from segment_blend[OF _ _ this(1), of Y Z] n z this(2)
    obtain A C D where "segment X Y Z (n - 1) = blend A 0 C D (X ! (n - 1)) (X ! n)" by simp
    moreover have "d2blend A 0 (X ! (n - 1)) (X ! n) (X ! n) = 0" by (simp add: d2blend_def)
    ultimately show ?thesis
      using blend_second_derivative[of A 0 C D "X ! (n - 1)" "X ! n" "X ! n"] by simp
  qed
  then show "has_second_derivative (func sp ! (length (func sp) - 1)) (stop sp) 0"
    by (simp only: sn e)
qed

lemma dense_boundary:
  assumes v: "valid_points pts" and b: "cubic_spline4_matrix pts = Inr sp"
  shows "has_second_derivative (func sp ! 0) (start sp) 0"
    and "has_second_derivative (func sp ! (length (func sp) - 1)) (stop sp) 0"
proof -
  define X Y n where "X = sorted_x pts" and "Y = sorted_y pts" and "n = length pts - 1"
  have l2: "2 \<le> length pts" using v by (auto simp: valid_points_def)
  have n: "1 \<le> n" "length X = Suc n" "length Y = length X" "2 \<le> length X" "length X - 1 = n"
    using l2 sorted_x_props(3,4)[OF v] by (simp_all add: X_def Y_def n_def)
  from b obtain c where c: "solve (build_M X) (build_A Y) = Inr c"
    and sp: "sp = map_S (map cubic (reshape4 c)) (sort_key fst pts)"
    unfolding X_def Y_def by (rule cubic_spline4_matrix_Inr)
  note ds = dense_system[OF n(4) n(3) c, unfolded n(5)]
  note bs = built_spline[OF v disjI2[OF b]]
  have f: "func sp = map cubic (reshape4 c)" by (simp add: sp map_S_def)
  have lr: "length (reshape4 c) = n" using ds(1) by (simp add: length_reshape4)
  have s0: "func sp ! 0 = cubic (reshape4 c ! 0)"
    and sn: "func sp ! (length (func sp) - 1) = cubic (reshape4 c ! (n - 1))"
    using n lr by (simp_all add: f)
  have e: "start sp = X ! 0" "stop sp = X ! n" using bs(1,2) by (simp_all add: X_def n_def)
  have "has_second_derivative (cubic (reshape4 c ! 0)) (X ! 0) 0"
    using cubic_second_derivative[of "reshape4 c ! 0" "X ! 0"] ds(6) by simp
  then show "has_second_derivative (func sp ! 0) (start sp) 0"
    by (simp only: s0 e)
  have "has_second_derivative (cubic (reshape4 c ! (n - 1))) (X ! n) 0"
    using cubic_second_derivative[of "reshape4 c ! (n - 1)" "X ! n"] ds(7) by simp
  then show "has_second_derivative (func sp ! (length (func sp) - 1)) (stop sp) 0"
    by (simp only: sn e)
qed

lemma segments_interpolate:
  assumes v: "valid_points pts"
    and b: "cubic_spline4 pts = Inr sp \<or> cubic_spline4_matrix pts = Inr sp"
    and i: "i < length pts - 1"
  shows "(func sp ! i) (sorted_x pts ! i) = sorted_y pts ! i"
    and "(func sp ! i) (sorted_x pts ! Suc i) = sorted_y pts ! Suc i"
proof -
  define X Y n where "X = sorted_x pts" and "Y = sorted_y pts" and "n = length pts - 1"
  have l2: "2 \<le> length pts" and ne: "pts \<noteq> []" using v by (auto simp: valid_points_def)
  have n: "length X = Suc n" "length Y = length X" "2 \<le> length X" "length X - 1 = n" "i < n"
    using l2 i sorted_x_props(3,4)[OF v] by (simp_all add: X_def Y_def n_def)
  have "(func sp ! i) (X ! i) = Y ! i \<and> (func sp ! i) (X ! Suc i) = Y ! Suc i"
    using b
  proof
    assume m: "cubic_spline4 pts = Inr sp"
    define Z where "Z = moments X Y"
    have lz: "length Z = length X" using moments_ends(1)[of X Y] n by (simp add: Z_def)
    have f: "func sp ! i = segment X Y Z i"
      using m ne n by (auto simp: cubic_spline4_Inr X_def Y_def Z_def n_def map_S_def)
    have "Suc i < length pts" using i by linarith
    then have "sorted_x pts ! i < sorted_x pts ! Suc i"
      by (intro sorted_x_strict[OF v]) simp_all
    then have h: "X ! Suc i - X ! i \<noteq> 0" by (simp add: X_def)
    have e: "X ! Suc i = X ! i + (X ! Suc i - X ! i)" by simp
    have sb: "segment X Y Z i =
       blend (Z ! i / (6 * (X ! Suc i - X ! i))) (Z ! Suc i / (6 * (X ! Suc i - X ! i)))
           (Y ! Suc i / (X ! Suc i - X ! i) - Z ! Suc i * (X ! Suc i - X ! i) / 6)
           (Y ! i / (X ! Suc i - X ! i) - Z ! i * (X ! Suc i - X ! i) / 6)
           (X ! i) (X ! i + (X ! Suc i - X ! i))"
      using segment_blend[OF n(2) lz, of i] n by simp
    show ?thesis
      unfolding f sb using blend_ends[OF h, of "Z ! i" "Z ! Suc i" "Y ! Suc i" "Y ! i" "X ! i"]
      by (subst (5) e) simp
  next
    assume d: "cubic_spline4_matrix pts = Inr sp"
    from d obtain c where c: "solve (build_M X) (build_A Y) = Inr c"
      and sp: "sp = map_S (map cubic (reshape4 c)) (sort_key fst pts)"
      unfolding X_def Y_def by (rule cubic_spline4_matrix_Inr)
    note ds = dense_system[OF n(3) n(2) c, unfolded n(4)]
    have lr: "length (reshape4 c) = n" using ds(1) by (simp add: length_reshape4)
    have f: "func sp ! i = cubic (reshape4 c ! i)" using lr n by (simp add: sp map_S_def)
    show ?thesis using ds(2,3)[OF n(5)] by (simp add: f)
  qed
  then show "(func sp ! i) (sorted_x pts ! i) = sorted_y pts ! i"
    and "(func sp ! i) (sorted_x pts ! Suc i) = sorted_y pts ! Suc i"
    by (simp_all add: X_def Y_def)
qed

lemma dense_continuity:
  assumes v: "valid_points pts" and d: "cubic_spline4_matrix pts = Inr sp"
    and i: "Suc i < length pts - 1"
  shows "\<exists>d1 d2. ((func sp ! i) has_field_derivative d1) (at (sorted_x pts ! Suc i))
           \<and> ((func sp ! Suc i) has_field_derivative d1) (at (sorted_x pts ! Suc i))
           \<and> has_second_derivative (func sp ! i) (sorted_x pts ! Suc i) d2
           \<and> has_second_derivative (func sp ! Suc i) (sorted_x pts ! Suc i) d2"
proof -
  define X Y n where "X = sorted_x pts" and "Y = sorted_y pts" and "n = length pts - 1"
  have l2: "2 \<le> length pts" using v by (auto simp: valid_points_def)
  have n: "length X = Suc n" "length Y = length X" "2 \<le> length X" "length X - 1 = n"
    "i < n - 1" "i < n" "Suc i < n"
    using l2 i sorted_x_props(3,4)[OF v] by (simp_all add: X_def Y_def n_def)
  from d obtain c where c: "solve (build_M X) (build_A Y) = Inr c"
    and sp: "sp = map_S (map cubic (reshape4 c)) (sort_key fst pts)"
    unfolding X_def Y_def by (rule cubic_spline4_matrix_Inr)
  note ds = dense_system[OF n(3) n(2) c, unfolded n(4)]
  have lr: "length (reshape4 c) = n" using ds(1) by (simp add: length_reshape4)
  have f: "func sp ! i = cubic (reshape4 c ! i)" "func sp ! Suc i = cubic (reshape4 c ! Suc i)"
    using lr n by (simp_all add: sp map_S_def)
  have e1: "d1cubic (reshape4 c ! i) (X ! Suc i) = d1cubic (reshape4 c ! Suc i) (X ! Suc i)"
    and e2: "d2cubic (reshape4 c ! i) (X ! Suc i) = d2cubic (reshape4 c ! Suc i) (X ! Suc i)"
    using ds(4,5)[OF n(5)] by simp_all
  show ?thesis
    unfolding f X_def[symmetric]
    using cubic_derivs(1)[of "reshape4 c ! i" "X ! Suc i"]
      cubic_derivs(1)[of "reshape4 c ! Suc i" "X ! Suc i"]
      cubic_second_derivative[of "reshape4 c ! i" "X ! Suc i"]
      cubic_second_derivative[of "reshape4 c ! Suc i" "X ! Suc i"]
    unfolding e1 e2 by blast
qed

subsection \<open>The dense system is singular for a repeated x and nonsingular otherwise\<close>


lemma dominant_zero:
  fixes a b c H1 H2 :: real
  assumes "0 < H1" "0 < H2" "\<bar>a\<bar> \<le> \<bar>b\<bar>" "\<bar>c\<bar> \<le> \<bar>b\<bar>"
    and "H1 * a + 2 * (H1 + H2) * b + H2 * c = 0"
  shows "b = 0"
proof -
  have "2 * (H1 + H2) * b = - (H1 * a + H2 * c)" using assms(5) by linarith
  then have "\<bar>2 * (H1 + H2) * b\<bar> = \<bar>H1 * a + H2 * c\<bar>" by simp
  moreover have "\<bar>2 * (H1 + H2) * b\<bar> = 2 * (H1 + H2) * \<bar>b\<bar>"
    using assms(1,2) by (simp add: abs_mult)
  moreover have "2 * (H1 + H2) * \<bar>b\<bar> = 2 * (H1 * \<bar>b\<bar>) + 2 * (H2 * \<bar>b\<bar>)"
    by (simp add: algebra_simps)
  moreover have "\<bar>H1 * a + H2 * c\<bar> \<le> H1 * \<bar>a\<bar> + H2 * \<bar>c\<bar>"
    using abs_triangle_ineq[of "H1 * a" "H2 * c"] assms(1,2) by (simp add: abs_mult)
  moreover have "H1 * \<bar>a\<bar> \<le> H1 * \<bar>b\<bar>" "H2 * \<bar>c\<bar> \<le> H2 * \<bar>b\<bar>"
    using assms(1-4) by (simp_all add: mult_left_mono)
  moreover have "0 \<le> H1 * \<bar>b\<bar>" "0 \<le> H2 * \<bar>b\<bar>" using assms(1,2) by simp_all
  ultimately have "H1 * \<bar>b\<bar> = 0" by linarith
  then show ?thesis using assms(1) by simp
qed

lemma abs_max_exists:
  fixes z :: "nat \<Rightarrow> real"
  shows "\<exists>m\<le>n. \<forall>k\<le>n. \<bar>z k\<bar> \<le> \<bar>z m\<bar>"
proof (induction n)
  case 0
  then show ?case by simp
next
  case (Suc n)
  then obtain m where m: "m \<le> n" "\<forall>k\<le>n. \<bar>z k\<bar> \<le> \<bar>z m\<bar>" by blast
  show ?case
  proof (cases "\<bar>z (Suc n)\<bar> \<le> \<bar>z m\<bar>")
    case True
    then have "\<forall>k\<le>Suc n. \<bar>z k\<bar> \<le> \<bar>z m\<bar>" using m(2) by (simp add: le_Suc_eq)
    then show ?thesis using m(1) by (intro exI[of _ m]) simp
  next
    case False
    then have "\<forall>k\<le>Suc n. \<bar>z k\<bar> \<le> \<bar>z (Suc n)\<bar>"
      using m(2) by (auto simp: le_Suc_eq intro: order_trans)
    then show ?thesis by (intro exI[of _ "Suc n"]) simp
  qed
qed

lemma tridiagonal_zero:
  fixes z h :: "nat \<Rightarrow> real"
  assumes z0: "z 0 = 0" and zn: "z n = 0"
    and h: "\<And>j. j < n \<Longrightarrow> 0 < h j"
    and t: "\<And>j. Suc j < n \<Longrightarrow> h j * z j + 2 * (h j + h (Suc j)) * z (Suc j) + h (Suc j) * z (Suc (Suc j)) = 0"
    and j: "j \<le> n"
  shows "z j = 0"
proof -
  from abs_max_exists[of n z] obtain m where m: "m \<le> n"
    and le: "\<And>k. k \<le> n \<Longrightarrow> \<bar>z k\<bar> \<le> \<bar>z m\<bar>" by blast
  have "z m = 0"
  proof (cases "m = 0 \<or> m = n")
    case True
    then show ?thesis using z0 zn by auto
  next
    case False
    then obtain k where k: "m = Suc k" "Suc k < n" using m(1) by (cases m) auto
    show ?thesis
      unfolding k(1)
    proof (rule dominant_zero[of "h k" "h (Suc k)" "z k" _ "z (Suc (Suc k))"])
      show "0 < h k" "0 < h (Suc k)" using k(2) by (simp_all add: h)
      show "\<bar>z k\<bar> \<le> \<bar>z (Suc k)\<bar>" using le[of k] k by simp
      show "\<bar>z (Suc (Suc k))\<bar> \<le> \<bar>z (Suc k)\<bar>" using le[of "Suc (Suc k)"] k by simp
      show "h k * z k + 2 * (h k + h (Suc k)) * z (Suc k) + h (Suc k) * z (Suc (Suc k)) = 0"
        using t[OF k(2)] .
    qed
  qed
  then show ?thesis using le[OF j] by simp
qed

lemma build_A_zeros: "build_A (replicate (Suc n) 0) = replicate (4 * n) 0"
proof -
  have "butlast (replicate (Suc n) (0::real)) = replicate n 0"
    by (simp add: butlast_conv_take del: replicate_Suc)
  moreover have "replicate n (0::real) @ replicate n 0 @ replicate (2 * n) 0 = replicate (4 * n) 0"
    by (simp flip: replicate_add)
  ultimately show ?thesis by (simp add: build_A_def del: replicate_Suc butlast.simps)
qed

lemma dense_null_space:
  assumes x: "2 \<le> length x" and inc: "sorted_wrt (<) x"
    and lc: "length c = 4 * (length x - 1)"
    and hom: "\<And>r. r < 4 * (length x - 1) \<Longrightarrow> dot (build_M x ! r) c = 0"
  shows "c = replicate (4 * (length x - 1)) 0"
proof -
  define n where "n = length x - 1"
  define y :: "real list" where "y = replicate (Suc n) 0"
  have n: "1 \<le> n" "length x = Suc n" "length x - 1 = n" using x by (simp_all add: n_def)
  have ly: "length y = length x" by (simp add: y_def n)
  have A: "build_A y = replicate (4 * n) 0" unfolding y_def by (rule build_A_zeros)
  have rows: "dot (build_M x ! r) c = build_A y ! r" if "r < 4 * (length x - 1)" for r
    using hom[OF that] that by (simp add: A n)
  have d: "\<And>i. i < n \<Longrightarrow> cubic (reshape4 c ! i) (x ! i) = y ! i"
    "\<And>i. i < n \<Longrightarrow> cubic (reshape4 c ! i) (x ! (i + 1)) = y ! (i + 1)"
    "\<And>i. i < n - 1 \<Longrightarrow>
       d1cubic (reshape4 c ! i) (x ! (i + 1)) = d1cubic (reshape4 c ! (i + 1)) (x ! (i + 1))"
    "\<And>i. i < n - 1 \<Longrightarrow>
       d2cubic (reshape4 c ! i) (x ! (i + 1)) = d2cubic (reshape4 c ! (i + 1)) (x ! (i + 1))"
    "d2cubic (reshape4 c ! 0) (x ! 0) = 0"
    "d2cubic (reshape4 c ! (n - 1)) (x ! n) = 0"
    using dense_rows[OF x ly lc rows] by (simp_all add: n)
  define co where "co j = reshape4 c ! j" for j
  define z where "z j = (if j < n then d2cubic (co j) (x ! j) else 0)" for j
  define hs where "hs j = x ! Suc j - x ! j" for j
  have lt: "x ! j < x ! Suc j" if "j < n" for j
    using inc that n by (simp add: sorted_wrt_nth_less)
  have yz: "y ! j = 0" if "j \<le> n" for j using that by (simp add: y_def del: replicate_Suc)
  have p0: "cubic (co j) (x ! j) = 0" if "j < n" for j
    using d(1)[OF that] yz[of j] that by (simp add: co_def)
  have p1: "cubic (co j) (x ! Suc j) = 0" if "j < n" for j
    using d(2)[OF that] yz[of "Suc j"] that by (simp add: co_def)
  have zl: "d2cubic (co j) (x ! j) = z j" if "j < n" for j using that by (simp add: z_def)
  have zr: "d2cubic (co j) (x ! Suc j) = z (Suc j)" if "j < n" for j
  proof (cases "Suc j < n")
    case True
    then have "j < n - 1" by simp
    from d(4)[OF this] True show ?thesis by (simp add: z_def co_def)
  next
    case False
    then have "j = n - 1" "Suc j = n" using that by simp_all
    then show ?thesis using d(6) by (simp add: z_def co_def)
  qed
  have z0: "z 0 = 0" using d(5) n by (simp add: z_def co_def)
  have zn: "z n = 0" by (simp add: z_def)
  have hpos: "0 < hs j" if "j < n" for j using lt[OF that] by (simp add: hs_def)
  have tri: "hs j * z j + 2 * (hs j + hs (Suc j)) * z (Suc j) + hs (Suc j) * z (Suc (Suc j)) = 0"
    if "Suc j < n" for j
  proof -
    have j: "j < n" "j < n - 1" using that by simp_all
    have ne1: "x ! j \<noteq> x ! Suc j" using lt[OF j(1)] by simp
    have ne2: "x ! Suc j \<noteq> x ! Suc (Suc j)" using lt[OF that] by simp
    have a: "6 * d1cubic (co j) (x ! Suc j) = hs j * (z j + 2 * z (Suc j))"
      using cubic_end_slopes(1)[OF ne1 p0[OF j(1)] p1[OF j(1)]]
      by (simp add: zl[OF j(1)] zr[OF j(1)] hs_def)
    have b: "6 * d1cubic (co (Suc j)) (x ! Suc j) = - hs (Suc j) * (2 * z (Suc j) + z (Suc (Suc j)))"
      using cubic_end_slopes(2)[OF ne2 p0[OF that] p1[OF that]]
      by (simp add: zl[OF that] zr[OF that] hs_def)
    have "d1cubic (co j) (x ! Suc j) = d1cubic (co (Suc j)) (x ! Suc j)"
      using d(3)[OF j(2)] by (simp add: co_def)
    then have "hs j * (z j + 2 * z (Suc j)) = - hs (Suc j) * (2 * z (Suc j) + z (Suc (Suc j)))"
      using a b by simp
    then show ?thesis by (simp add: algebra_simps)
  qed
  have zz: "z j = 0" if "j \<le> n" for j
    using tridiagonal_zero[of z n hs j, OF z0 zn hpos tri that] .
  have lco: "co j = [c ! (4 * j), c ! Suc (4 * j), c ! Suc (Suc (4 * j)), c ! Suc (Suc (Suc (4 * j)))]"
    if "j < n" for j
    using that lc n by (simp add: co_def reshape4_nth_Suc)
  have coz: "co j ! 0 = 0 \<and> co j ! 1 = 0 \<and> co j ! 2 = 0 \<and> co j ! 3 = 0" if "j < n" for j
  proof -
    have ne: "x ! j \<noteq> x ! Suc j" using lt[OF that] by simp
    have l4: "length (co j) = 4" using lco[OF that] by simp
    have e0: "d2cubic (co j) (x ! j) = 0" using zl[OF that] zz[of j] that by simp
    have e1: "d2cubic (co j) (x ! Suc j) = 0" using zr[OF that] zz[of "Suc j"] that by simp
    note cl = cubic_line[OF ne l4 p0[OF that] p1[OF that] e0 e1]
    have "cubic (co j) 0 = 0" "cubic (co j) 1 = 0" using cl(3)[of 0] cl(3)[of 1] by simp_all
    then have "co j ! 3 = 0" "co j ! 2 = 0" using cl(1,2) by (simp_all add: cubic_def)
    then show ?thesis using cl(1,2) by simp
  qed
  have cz: "c ! r = 0" if "r < 4 * n" for r
  proof -
    define j k where "j = r div 4" and "k = r mod 4"
    have r: "r = 4 * j + k" "k < 4" "j < n" using that by (simp_all add: j_def k_def)
    from coz[OF r(3)] have "c ! (4 * j) = 0" "c ! Suc (4 * j) = 0" "c ! Suc (Suc (4 * j)) = 0"
      "c ! Suc (Suc (Suc (4 * j))) = 0"
      unfolding lco[OF r(3)] by (simp_all add: eval_nat_numeral)
    moreover have "k = 0 \<or> k = 1 \<or> k = 2 \<or> k = 3" using r(2) by linarith
    ultimately show ?thesis unfolding r(1) by (auto simp: eval_nat_numeral)
  qed
  show ?thesis
    unfolding n(3) using lc cz n by (intro nth_equalityI) simp_all
qed

lemma dense_solve_total:
  assumes x: "2 \<le> length x" and inc: "sorted_wrt (<) x" and y: "length y = length x"
  shows "\<exists>c. solve (build_M x) (build_A y) = Inr c"
proof (rule solve_complete)
  have lM: "length (build_M x) = 4 * (length x - 1)" using build_M_nth(7)[OF x] .
  show "\<forall>row\<in>set (build_M x). length row = length (build_M x)"
    using build_M_rows[OF x] lM by simp
  show "length (build_A y) = length (build_M x)"
    using build_A_nth(4)[of y] x y lM by simp
  fix c'
  assume "length c' = length (build_M x)" "\<forall>r<length (build_M x). dot (build_M x ! r) c' = 0"
  then show "c' = replicate (length (build_M x)) 0"
    unfolding lM using dense_null_space[OF x inc] by blast
qed

lemma builders_total:
  assumes "valid_points pts"
  shows "\<exists>sp. cubic_spline4 pts = Inr sp" and "\<exists>sp. cubic_spline4_matrix pts = Inr sp"
proof -
  have ne: "pts \<noteq> []" and l2: "2 \<le> length pts" using assms by (auto simp: valid_points_def)
  show "\<exists>sp. cubic_spline4 pts = Inr sp" using ne by (simp add: cubic_spline4_Inr)
  have inc: "sorted_wrt (<) (sorted_x pts)"
    using sorted_x_props(1,2)[OF assms] by (simp add: strict_sorted_iff)
  from dense_solve_total[OF sorted_x_props(5)[OF assms] inc, of "sorted_y pts"]
    sorted_x_props(3,4)[OF assms]
  obtain c where "solve (build_M (sorted_x pts)) (build_A (sorted_y pts)) = Inr c" by auto
  then show "\<exists>sp. cubic_spline4_matrix pts = Inr sp"
    using l2 by (simp add: cubic_spline4_matrix_def dense_coeff_def Let_def sorted_x_def sorted_y_def)
qed

subsection \<open>Two points\<close>







subsection \<open>Concrete runs\<close>


lemma valid_two_points: "valid_points [(0, 0), (1, 1)]"
  by (simp add: valid_points_def)


lemma moments_two_points:
  "cubic_spline4 [(0, 0), (1, 1)]
   = Inr (map_S (map (segment [0, 1] [0, 1] (moments [0, 1] [0, 1])) [0..<1]) [(0, 0), (1, 1)])"
  by (simp add: cubic_spline4_def Let_def)

lemma moments_four_points: "moments [0, 1, 2, 9] [0, 1, 0, 0] = [0, - (22 / 7), 4 / 7, 0]"
  by (simp add: moments_def widths_def slopes_def diag_u_def rhs_v_def rank_u_def rank_v_def
        Let_def eval_nat_numeral)

lemma dense_four_points:
  "dense_coeff [(0, 0), (1, 1), (2, 0), (9, 0)]
   = Inr [[- (11 / 21), 0, 32 / 21, 0],
          [13 / 21, - (24 / 7), 104 / 21, - (8 / 7)],
          [- (2 / 147), 18 / 49, - (388 / 147), 192 / 49]]"
  by (simp add: dense_coeff_def build_M_def vander_def place_def build_A_def solve_def
        eval_nat_numeral eliminate_def dot_def)

lemma moments_five_points:
  "moments [0, 1, 2, 3, 4] [0, 1, 0, 0, 0] = [0, - (4082 / 1125), 2828 / 1125, - (32 / 75), 0]"
  by (simp add: moments_def widths_def slopes_def diag_u_def rhs_v_def rank_u_def rank_v_def
        Let_def eval_nat_numeral)

lemma dense_five_points:
  "dense_coeff [(0, 0), (1, 1), (2, 0), (3, 0), (4, 0)]
   = Inr [[- (17 / 28), 0, 45 / 28, 0],
          [29 / 28, - (69 / 14), 183 / 28, - (23 / 14)],
          [- (15 / 28), 9 / 2, - (345 / 28), 153 / 14],
          [3 / 28, - (9 / 7), 141 / 28, - (45 / 7)]]"
  by (simp add: dense_coeff_def build_M_def vander_def place_def build_A_def solve_def
        eval_nat_numeral eliminate_def dot_def)

section \<open>The claims\<close>

text \<open>
  Both builders return a spline for every valid point set (lemma \<open>builders_total\<close>):
  the moments builder raises nothing, and the dense system is nonsingular when the
  x-values are pairwise distinct. The statements below are about these splines.
\<close>

text \<open>
  Claim C1 (the code differs). The claim: for every valid point set the spline of
  either builder takes the value \<open>y_i\<close> at every \<open>x_i\<close>. Each segment does take the
  given values at its own two ends (lemma \<open>segments_interpolate\<close>), but the evaluator
  picks the segment by a uniform width. For the points
  \<open>(0, 0), (1, 1), (2, 0), (9, 0)\<close> the width is \<open>3\<close>, the query \<open>x_2 = 2\<close> goes to
  segment \<open>0\<close> (of \<open>[0, 1]\<close>), and both builders return \<open>-8/7\<close> where \<open>y_2 = 0\<close>.
\<close>

theorem interpolation_fails_nonuniform:
  "valid_points [(0, 0), (1, 1), (2, 0), (9, 0)]
   \<and> built_value cubic_spline4 [(0, 0), (1, 1), (2, 0), (9, 0)] 2 = Inr (- (8 / 7))
   \<and> built_value cubic_spline4_matrix [(0, 0), (1, 1), (2, 0), (9, 0)] 2 = Inr (- (8 / 7))"
proof -
  have "built_value cubic_spline4 [(0, 0), (1, 1), (2, 0), (9, 0)] 2 = Inr (- (8 / 7))"
    by (simp add: built_value_def cubic_spline4_def Let_def moments_four_points splines_def
          map_points_def map_S_def rang_def py_index_def segment_def widths_def eval_nat_numeral)
  moreover have "built_value cubic_spline4_matrix [(0, 0), (1, 1), (2, 0), (9, 0)] 2 = Inr (- (8 / 7))"
    by (simp add: built_value_def cubic_spline4_matrix_def dense_four_points splines_def
          map_points_def map_S_def rang_def py_index_def cubic_def)
  ultimately show ?thesis by (simp add: valid_points_def)
qed

text \<open>
  Claim C2 (the code differs). The claim: for every valid point set and every query
  point of the domain the two builders give the same value. The elimination of
  \<open>cubic_spline4\<close> is the Thomas elimination only up to four points; from five points
  on it eliminates with stale values (see C3) and its moments are not those of the
  natural spline, which the dense builder computes. For the points
  \<open>(0, 0), (1, 1), (2, 0), (3, 0), (4, 0)\<close> and the query \<open>1/2\<close> the dense builder
  gives \<open>163/224\<close> and the moments builder \<open>6541/9000\<close>.
\<close>

theorem builders_disagree:
  "valid_points [(0, 0), (1, 1), (2, 0), (3, 0), (4, 0)]
   \<and> built_value cubic_spline4_matrix [(0, 0), (1, 1), (2, 0), (3, 0), (4, 0)] (1 / 2)
       = Inr (163 / 224)
   \<and> built_value cubic_spline4 [(0, 0), (1, 1), (2, 0), (3, 0), (4, 0)] (1 / 2)
       = Inr (6541 / 9000)"
proof -
  have "built_value cubic_spline4 [(0, 0), (1, 1), (2, 0), (3, 0), (4, 0)] (1 / 2)
        = Inr (6541 / 9000)"
    by (simp add: built_value_def cubic_spline4_def Let_def moments_five_points splines_def
          map_points_def map_S_def rang_def py_index_def segment_def widths_def eval_nat_numeral)
  moreover have "built_value cubic_spline4_matrix [(0, 0), (1, 1), (2, 0), (3, 0), (4, 0)] (1 / 2)
        = Inr (163 / 224)"
    by (simp add: built_value_def cubic_spline4_matrix_def dense_five_points splines_def
          map_points_def map_S_def rang_def py_index_def cubic_def eval_nat_numeral)
  ultimately show ?thesis by (simp add: valid_points_def)
qed

text \<open>
  Claim C3 (the code differs). The claim: the elimination of \<open>cubic_spline4\<close> is the
  sequential recurrence, each step using the \<open>u_{i-1}\<close>, \<open>v_{i-1}\<close> the step before
  has updated. The source's two whole-array statements agree with it for up to four
  points (lemma \<open>elimination_agrees_small\<close>), not for five: for
  \<open>x = [0, 1, 2, 3, 4]\<close>, \<open>y = [0, 1, 0, 0, 0]\<close> they give \<open>u[2] = 15/4\<close>, \<open>v[2] = -8/5\<close>,
  the recurrence gives \<open>u[2] = 56/15\<close>, \<open>v[2] = -12/5\<close>.
\<close>

theorem elimination_not_sequential:
  "widths [0, 1, 2, 3, 4] = [1, 1, 1, 1]
   \<and> diag_u [1, 1, 1, 1] = [4, 4, 4]
   \<and> rhs_v (slopes [0, 1, 0, 0, 0] [1, 1, 1, 1]) = [- 12, 6, 0]
   \<and> rank_u [1, 1, 1, 1] [4, 4, 4] = [4, 15 / 4, 15 / 4]
   \<and> rank_v [1, 1, 1, 1] [4, 15 / 4, 15 / 4] [- 12, 6, 0] = [- 12, 9, - (8 / 5)]
   \<and> thomas_elimination [1, 1, 1, 1] [4, 4, 4] [- 12, 6, 0]
       = ([4, 15 / 4, 56 / 15], [- 12, 9, - (12 / 5)])"
  by (simp add: widths_def diag_u_def rhs_v_def slopes_def rank_u_def rank_v_def
        thomas_elimination_def eval_nat_numeral)




text \<open>
  Claim C5 (the code differs). The claim: at every interior breakpoint the first and
  second derivatives of the two adjacent segments agree, for both builders. The
  dense builder's segments do (lemma \<open>dense_continuity\<close>). The moments builder's do
  not from five points on, because of the elimination (see C3): for the points
  \<open>(0, 0), (1, 1), (2, 0), (3, 0), (4, 0)\<close> the segments \<open>2\<close> and \<open>3\<close> meet at \<open>x_3 = 3\<close>
  with first derivatives \<open>934/3375\<close> and \<open>32/225\<close>.
\<close>

theorem first_derivative_jump:
  "valid_points [(0, 0), (1, 1), (2, 0), (3, 0), (4, 0)]
   \<and> (\<exists>sp. cubic_spline4 [(0, 0), (1, 1), (2, 0), (3, 0), (4, 0)] = Inr sp
         \<and> sorted_x [(0, 0), (1, 1), (2, 0), (3, 0), (4, 0)] ! 3 = 3
         \<and> ((func sp ! 2) has_field_derivative 934 / 3375) (at 3)
         \<and> ((func sp ! 3) has_field_derivative 32 / 225) (at 3))"
proof -
  define X Y Z :: "real list" where "X = [0, 1, 2, 3, 4]" and "Y = [0, 1, 0, 0, 0]"
    and "Z = [0, - (4082 / 1125), 2828 / 1125, - (32 / 75), 0]"
  define sp where "sp = map_S (map (segment X Y Z) [0..<4]) [(0, 0), (1, 1), (2, 0), (3, 0), (4, 0)]"
  have b: "cubic_spline4 [(0, 0), (1, 1), (2, 0), (3, 0), (4, 0)] = Inr sp"
    by (simp add: cubic_spline4_def Let_def moments_five_points sp_def X_def Y_def Z_def
          eval_nat_numeral)
  have l: "length Y = length X" "length Z = length X" by (simp_all add: X_def Y_def Z_def)
  have f: "func sp ! 2 = segment X Y Z 2" "func sp ! 3 = segment X Y Z 3"
    by (simp_all add: sp_def map_S_def eval_nat_numeral)
  have s2: "segment X Y Z 2 = blend (707 / 1125 * (2 / 3)) (- (16 / 225)) (16 / 225) (- (1414 / 3375)) 2 3"
    by (subst segment_blend[OF l]) (simp_all add: X_def Y_def Z_def eval_nat_numeral)
  have s3: "segment X Y Z 3 = blend (- (16 / 225)) 0 0 (16 / 225) 3 4"
    by (subst segment_blend[OF l]) (simp_all add: X_def Y_def Z_def eval_nat_numeral)
  have "((func sp ! 2) has_field_derivative 934 / 3375) (at 3)"
    unfolding f s2
    using blend_derivs(1)[of "707 / 1125 * (2 / 3)" "- (16 / 225)" "16 / 225" "- (1414 / 3375)" 2 3 3]
    by (simp add: d1blend_def)
  moreover have "((func sp ! 3) has_field_derivative 32 / 225) (at 3)"
    unfolding f s3 using blend_derivs(1)[of "- (16 / 225)" 0 0 "16 / 225" 3 4 3]
    by (simp add: d1blend_def)
  moreover have "sorted_x [(0, 0), (1, 1), (2, 0), (3, 0), (4, 0)] ! 3 = 3"
    by (simp add: sorted_x_def)
  ultimately show ?thesis using b by (auto simp: valid_points_def)
qed

text \<open>
  Claim C6. For every valid point set, each builder returns a spline whose second
  derivative is zero at the first and at the last breakpoint: the first segment's
  second derivative at \<open>x_0\<close> (the least x-value, the domain start) is \<open>0\<close> and the
  last segment's second derivative at \<open>x_n\<close> (the greatest x-value, the domain end)
  is \<open>0\<close>.
\<close>

theorem natural_boundary:
  assumes "valid_points pts"
  shows "\<exists>sa sb. cubic_spline4 pts = Inr sa \<and> cubic_spline4_matrix pts = Inr sb
          \<and> (\<forall>sp\<in>{sa, sb}.
                 start sp = Min (fst ` set pts) \<and> stop sp = Max (fst ` set pts)
               \<and> has_second_derivative (func sp ! 0) (start sp) 0
               \<and> has_second_derivative (func sp ! (length (func sp) - 1)) (stop sp) 0)"
proof -
  from builders_total[OF assms] obtain sa sb
    where a: "cubic_spline4 pts = Inr sa" and b: "cubic_spline4_matrix pts = Inr sb" by blast
  note la = segment_lookup[OF assms disjI1[OF a]]
  note lb = segment_lookup[OF assms disjI2[OF b]]
  show ?thesis
    using a b la lb moments_boundary[OF assms a] dense_boundary[OF assms b] by auto
qed

theorem natural_boundary_witness:
  "valid_points [(0, 0), (1, 1)]
   \<and> (\<exists>sa sb. cubic_spline4 [(0, 0), (1, 1)] = Inr sa
          \<and> cubic_spline4_matrix [(0, 0), (1, 1)] = Inr sb
          \<and> start sa = 0 \<and> stop sa = 1 \<and> start sb = 0 \<and> stop sb = 1
          \<and> has_second_derivative (func sa ! 0) 0 0
          \<and> has_second_derivative (func sa ! (length (func sa) - 1)) 1 0
          \<and> has_second_derivative (func sb ! 0) 0 0
          \<and> has_second_derivative (func sb ! (length (func sb) - 1)) 1 0)"
proof -
  let ?P = "[(0, 0), (1, 1)] :: points"
  from natural_boundary[OF valid_two_points] obtain sa sb
    where a: "cubic_spline4 ?P = Inr sa"
      and b: "cubic_spline4_matrix ?P = Inr sb"
      and p: "\<forall>sp\<in>{sa, sb}.
                 start sp = Min (fst ` set ?P)
               \<and> stop sp = Max (fst ` set ?P)
               \<and> has_second_derivative (func sp ! 0) (start sp) 0
               \<and> has_second_derivative (func sp ! (length (func sp) - 1)) (stop sp) 0"
    by (elim exE conjE)
  have m: "Min (fst ` set ?P) = 0"
    "Max (fst ` set ?P) = 1" by simp_all
  from p have "start sa = 0" "stop sa = 1" "start sb = 0" "stop sb = 1"
    unfolding m by simp_all
  moreover from p this have "has_second_derivative (func sa ! 0) 0 0"
    "has_second_derivative (func sa ! (length (func sa) - 1)) 1 0"
    "has_second_derivative (func sb ! 0) 0 0"
    "has_second_derivative (func sb ! (length (func sb) - 1)) 1 0"
    by fastforce+
  ultimately show ?thesis using valid_two_points a b by blast
qed

text \<open>
  Claim C7. For a valid point set and any permutation of its points, each builder
  returns the same result from the permuted list as from the original one (the same
  closure, hence the same value at every query point), because both sort by x first.
\<close>

theorem order_invariance:
  assumes "valid_points pts" and "mset pts' = mset pts"
  shows "cubic_spline4 pts' = cubic_spline4 pts
       \<and> cubic_spline4_matrix pts' = cubic_spline4_matrix pts"
  using builders_permuted(1,2)[OF assms] by simp

theorem order_invariance_witness:
  "valid_points [(0, 0), (1, 1), (3, 2)]
   \<and> mset [(3, 2), (0, 0), (1, 1)] = mset [(0, 0), (1, 1), (3 :: real, 2 :: real)]
   \<and> cubic_spline4 [(3, 2), (0, 0), (1, 1)] = cubic_spline4 [(0, 0), (1, 1), (3, 2)]
   \<and> cubic_spline4_matrix [(3, 2), (0, 0), (1, 1)] = cubic_spline4_matrix [(0, 0), (1, 1), (3, 2)]"
proof -
  have v: "valid_points [(0, 0), (1, 1), (3, 2)]" by (simp add: valid_points_def)
  have m: "mset [(3, 2), (0, 0), (1, 1)] = mset [(0, 0), (1, 1), (3 :: real, 2 :: real)]"
    by simp
  from order_invariance[OF v m] v m show ?thesis by blast
qed







end
